theory Spec2Isabelle
  imports Main
begin

section \<open>Times, time zones and timeslots\<close>

text \<open>
  A Python \<^verbatim>\<open>datetime\<close> is a count of microseconds and a \<^verbatim>\<open>timedelta\<close> a
  (signed) number of microseconds, both unbounded integers here.  An aware datetime is
  the instant it denotes (microseconds since the epoch, UTC): two aware datetimes of
  different zones that denote the same instant are equal in Python as well.  A naive
  local datetime is the wall-clock reading, counted on the same scale.
\<close>

type_synonym datetime = int
type_synonym timedelta = int

text \<open>
  Python's datetimes end at \<^verbatim>\<open>datetime.min\<close> (0001-01-01 00:00:00) and \<^verbatim>\<open>datetime.max\<close>
  (9999-12-31 23:59:59.999999), and arithmetic that leaves this range raises
  \<^verbatim>\<open>OverflowError\<close>.  The functions below compute on the integers and do not raise it:
  they agree with the code on every run whose datetimes all lie within the range, and a
  statement that the code returns carries the range as a hypothesis.
\<close>

definition datetime_min :: datetime where
  "datetime_min = - 62135596800000000"

definition datetime_max :: datetime where
  "datetime_max = 253402300799999999"

text \<open>
  The exceptions that the functions modelled here raise; \<open>AmbiguousTimeError\<close> is the
  time zone library's, for \<^verbatim>\<open>make_aware\<close> on a local time that occurs twice.
\<close>

datatype error =
  ScheduleInconsistencyError | IndexError | TypeError | ValueError | AmbiguousTimeError

text \<open>\<^verbatim>\<open>DAY = timezone.timedelta(days=1)\<close>\<close>

definition DAY :: timedelta where
  "DAY = 86400000000"

text \<open>
  The current time zone is the platform's (Django settings and the zone database); it is
  a parameter of every function that reads it: the UTC offset in force at an instant.
\<close>

type_synonym tzinfo = "datetime \<Rightarrow> timedelta"

text \<open>
  \<^verbatim>\<open>nld(date)\<close>: \<^verbatim>\<open>timezone.localtime(date)\<close> moves the instant to the current zone, and
  \<^verbatim>\<open>make_naive\<close> strips the zone, leaving the wall-clock reading.
\<close>

definition nld :: "tzinfo \<Rightarrow> datetime \<Rightarrow> datetime" where
  "nld tz date = date + tz date"

text \<open>\<^verbatim>\<open>nldiff(a, b) = nld(a) - nld(b)\<close>\<close>

definition nldiff :: "tzinfo \<Rightarrow> datetime \<Rightarrow> datetime \<Rightarrow> timedelta" where
  "nldiff tz a b = nld tz a - nld tz b"


text \<open>
  A timeslot, as far as this module reads it: the attribute \<^verbatim>\<open>start_time\<close>, the value
  the method \<^verbatim>\<open>end_time()\<close> returns (the model class is not part of the sources, so
  the value is a field), and the name of its show type, which tells filler from
  programming.
\<close>

record timeslot =
  start_time :: datetime
  end_time :: datetime
  show_type_name :: string

section \<open>The day partitioner\<close>

text \<open>
  \<^verbatim>\<open>rotate_day(day_end, day_list, done_day_lists)\<close> appends to \<^verbatim>\<open>done_day_lists\<close> in
  place and returns the new day's initial list; the model returns both.
\<close>

definition rotate_day ::
  "tzinfo \<Rightarrow> datetime \<Rightarrow> timeslot list \<Rightarrow> timeslot list list
     \<Rightarrow> error + (timeslot list \<times> timeslot list list)" where
  "rotate_day tz day_end day_list done_day_lists =
     (if day_list = [] then Inl ScheduleInconsistencyError
      else
        let last_show = last day_list
        in Inr (if nld tz (end_time last_show) > day_end then [last_show] else [],
                done_day_lists @ [day_list]))"

text \<open>The local variables of \<^verbatim>\<open>split_days\<close> that its loops update.\<close>

record split_state =
  sd_done_day_lists :: "timeslot list list"
  sd_day_list :: "timeslot list"
  sd_partitions :: "timedelta set"
  sd_day_start :: datetime
  sd_day_end :: datetime

text \<open>
  The inner loop \<^verbatim>\<open>while day_end <= nlslot\<close>: each round rotates the day and moves the
  day's bounds on by \<^verbatim>\<open>DAY\<close>; an exception of \<^verbatim>\<open>rotate_day\<close> leaves the loop.
\<close>

function rotate_while :: "tzinfo \<Rightarrow> datetime \<Rightarrow> split_state \<Rightarrow> error + split_state" where
  "rotate_while tz nlslot st =
     (if sd_day_end st \<le> nlslot then
        (case rotate_day tz (sd_day_end st) (sd_day_list st) (sd_done_day_lists st) of
           Inl e \<Rightarrow> Inl e
         | Inr (day_list', done_day_lists') \<Rightarrow>
             rotate_while tz nlslot
               (st\<lparr>sd_day_list := day_list', sd_done_day_lists := done_day_lists',
                   sd_day_start := sd_day_end st, sd_day_end := sd_day_end st + DAY\<rparr>))
      else Inr st)"
  by pat_completeness auto
termination
  by (relation "measure (\<lambda>(tz, nlslot, st). nat (nlslot - sd_day_end st + 1))")
     (auto simp: DAY_def)

declare rotate_while.simps [simp del]

text \<open>The body of \<^verbatim>\<open>for slot in data\<close>.\<close>

definition split_days_slot :: "tzinfo \<Rightarrow> split_state \<Rightarrow> timeslot \<Rightarrow> error + split_state" where
  "split_days_slot tz st slot =
     (let nlslot = nld tz (start_time slot)
      in case rotate_while tz nlslot st of
           Inl e \<Rightarrow> Inl e
         | Inr st' \<Rightarrow>
             Inr (st'\<lparr>sd_day_list := sd_day_list st' @ [slot],
                      sd_partitions :=
                        (if nlslot > sd_day_start st'
                         then insert (nlslot - sd_day_start st') (sd_partitions st')
                         else sd_partitions st')\<rparr>))"

fun split_days_loop :: "tzinfo \<Rightarrow> split_state \<Rightarrow> timeslot list \<Rightarrow> error + split_state" where
  "split_days_loop tz st [] = Inr st"
| "split_days_loop tz st (slot # data) =
     (case split_days_slot tz st slot of
        Inl e \<Rightarrow> Inl e
      | Inr st' \<Rightarrow> split_days_loop tz st' data)"

definition split_days ::
  "tzinfo \<Rightarrow> datetime \<Rightarrow> timeslot list \<Rightarrow> error + (timeslot list list \<times> timedelta set)" where
  "split_days tz nlstart data =
     (case split_days_loop tz
             \<lparr>sd_done_day_lists = [], sd_day_list = [], sd_partitions = {0},
              sd_day_start = nlstart, sd_day_end = nlstart + DAY\<rparr> data of
        Inl e \<Rightarrow> Inl e
      | Inr st \<Rightarrow> Inr (sd_done_day_lists st @ [sd_day_list st], sd_partitions st))"

section \<open>The table builder\<close>

text \<open>
  A cell of the schedule table holds a naive local datetime (the time column), \<^verbatim>\<open>None\<close>,
  or the tuple \<^verbatim>\<open>(slot, rows)\<close>.  A table is a list of rows, a row a list of cells.
\<close>

datatype cell = DateCell datetime | NoneCell | SlotCell timeslot nat

type_synonym table = "cell list list"

definition SCHEDULE_DAY_OFFSET :: nat where
  "SCHEDULE_DAY_OFFSET = 1"

definition SCHEDULE_TIME_COL :: nat where
  "SCHEDULE_TIME_COL = 0"

text \<open>
  \<^verbatim>\<open>empty_table\<close>: one row for each offset of \<^verbatim>\<open>sorted(partitions)\<close>, holding its time
  and then \<^verbatim>\<open>n_cols\<close> times \<^verbatim>\<open>None\<close>.
\<close>

definition empty_table :: "datetime \<Rightarrow> timedelta set \<Rightarrow> nat \<Rightarrow> table" where
  "empty_table nlstart partitions n_cols =
     map (\<lambda>i. [DateCell (nlstart + i)] @ replicate n_cols NoneCell)
         (sorted_list_of_set partitions)"

text \<open>
  The function \<^verbatim>\<open>make_row_date(table, days)\<close> returns, applied to \<^verbatim>\<open>row\<close>:
  \<^verbatim>\<open>table[row][SCHEDULE_TIME_COL] + offset\<close>.  Rows are counted from zero upwards, so an
  index is out of range exactly when it is too large; adding a \<^verbatim>\<open>timedelta\<close> to a cell
  that is no datetime is a \<^verbatim>\<open>TypeError\<close>.
\<close>

definition make_row_date :: "table \<Rightarrow> nat \<Rightarrow> nat \<Rightarrow> error + datetime" where
  "make_row_date table days row =
     (let offset = int days * DAY
      in if row < length table \<and> SCHEDULE_TIME_COL < length (table ! row) then
           (case table ! row ! SCHEDULE_TIME_COL of
              DateCell t \<Rightarrow> Inr (t + offset)
            | NoneCell \<Rightarrow> Inl TypeError
            | SlotCell s n \<Rightarrow> Inl TypeError)
         else Inl IndexError)"

text \<open>
  The function \<^verbatim>\<open>make_add_to_table(table, days)\<close> returns, applied to \<^verbatim>\<open>row\<close>, \<^verbatim>\<open>slot\<close>
  and \<^verbatim>\<open>rows\<close>: \<^verbatim>\<open>table[row][col] = slot, rows\<close>.  The table is changed in place; the
  model returns the new table.
\<close>

definition make_add_to_table ::
  "table \<Rightarrow> nat \<Rightarrow> nat \<Rightarrow> timeslot \<Rightarrow> nat \<Rightarrow> error + table" where
  "make_add_to_table table days row slot rows =
     (let col = SCHEDULE_DAY_OFFSET + days
      in if row < length table \<and> col < length (table ! row) then
           Inr (table[row := (table ! row)[col := SlotCell slot rows]])
         else Inl IndexError)"

text \<open>
  The loop \<^verbatim>\<open>while row_date(current_row) < nlend: current_row += 1\<close> inside its
  \<^verbatim>\<open>try\<close>: an \<^verbatim>\<open>IndexError\<close> ends it with \<^verbatim>\<open>hit_bottom = True\<close>, any other exception
  leaves the function.  The result is the cursor and \<^verbatim>\<open>hit_bottom\<close>.
\<close>

function count_rows :: "table \<Rightarrow> nat \<Rightarrow> datetime \<Rightarrow> nat \<Rightarrow> error + (nat \<times> bool)" where
  "count_rows table days nlend current_row =
     (case make_row_date table days current_row of
        Inl e \<Rightarrow> if e = IndexError then Inr (current_row, True) else Inl e
      | Inr d \<Rightarrow>
          if d < nlend then count_rows table days nlend (current_row + 1)
          else Inr (current_row, False))"
  by pat_completeness auto
termination
  by (relation "measure (\<lambda>(table, days, nlend, current_row). length table - current_row)")
     (auto simp: make_row_date_def Let_def split: if_splits)

declare count_rows.simps [simp del]

text \<open>
  The \<^verbatim>\<open>raise\<close> of \<^verbatim>\<open>populate_table_day\<close>.  Python evaluates the arguments of
  \<^verbatim>\<open>format\<close> before the exception is built: \<^verbatim>\<open>row_date(current_row)\<close>, and then
  \<^verbatim>\<open>'END' if hit_bottom else row_date(current_row + 1)\<close>.  The value is the exception
  that leaves the function.
\<close>

definition partitioning_unsound :: "table \<Rightarrow> nat \<Rightarrow> nat \<Rightarrow> bool \<Rightarrow> error" where
  "partitioning_unsound table days current_row hit_bottom =
     (case make_row_date table days current_row of
        Inl e \<Rightarrow> e
      | Inr d \<Rightarrow>
          if hit_bottom then ScheduleInconsistencyError
          else (case make_row_date table days (current_row + 1) of
                  Inl e \<Rightarrow> e
                | Inr d' \<Rightarrow> ScheduleInconsistencyError))"

text \<open>
  The body of \<^verbatim>\<open>for slot in day\<close>; the state of the loop is the table and
  \<^verbatim>\<open>current_row\<close>.  The \<^verbatim>\<open>else\<close> branch of the \<^verbatim>\<open>try\<close> runs when the loop ended without
  an \<^verbatim>\<open>IndexError\<close>, and nothing catches what it raises.
\<close>

definition populate_table_slot ::
  "tzinfo \<Rightarrow> nat \<Rightarrow> table \<times> nat \<Rightarrow> timeslot \<Rightarrow> error + (table \<times> nat)" where
  "populate_table_slot tz days st slot =
     (let table = fst st;
          start_row = snd st;
          nlend = nld tz (end_time slot)
      in case count_rows table days nlend start_row of
           Inl e \<Rightarrow> Inl e
         | Inr (current_row, hit_bottom) \<Rightarrow>
             (case (if hit_bottom then Inr ()
                    else (case make_row_date table days current_row of
                            Inl e \<Rightarrow> Inl e
                          | Inr d \<Rightarrow>
                              if d > nlend
                              then Inl (partitioning_unsound table days current_row hit_bottom)
                              else Inr ())) of
                Inl e \<Rightarrow> Inl e
              | Inr u \<Rightarrow>
                  (case make_add_to_table table days start_row slot (current_row - start_row) of
                     Inl e \<Rightarrow> Inl e
                   | Inr table' \<Rightarrow> Inr (table', current_row))))"

fun populate_table_day_loop ::
  "tzinfo \<Rightarrow> nat \<Rightarrow> table \<times> nat \<Rightarrow> timeslot list \<Rightarrow> error + (table \<times> nat)" where
  "populate_table_day_loop tz days st [] = Inr st"
| "populate_table_day_loop tz days st (slot # day) =
     (case populate_table_slot tz days st slot of
        Inl e \<Rightarrow> Inl e
      | Inr st' \<Rightarrow> populate_table_day_loop tz days st' day)"

text \<open>
  \<^verbatim>\<open>populate_table_day(row_date, add_to_table, day)\<close>, with the two closures given by
  the table and the day number they are closed over; \<^verbatim>\<open>current_row\<close> starts at 0.
\<close>

definition populate_table_day :: "tzinfo \<Rightarrow> table \<Rightarrow> nat \<Rightarrow> timeslot list \<Rightarrow> error + table" where
  "populate_table_day tz table days day =
     (case populate_table_day_loop tz days (table, 0) day of
        Inl e \<Rightarrow> Inl e
      | Inr st \<Rightarrow> Inr (fst st))"

text \<open>\<^verbatim>\<open>for i, day in enumerate(data_lists)\<close>, from the index \<open>i\<close> on.\<close>

fun populate_table_from ::
  "tzinfo \<Rightarrow> table \<Rightarrow> nat \<Rightarrow> timeslot list list \<Rightarrow> error + table" where
  "populate_table_from tz table i [] = Inr table"
| "populate_table_from tz table i (day # data_lists) =
     (case populate_table_day tz table i day of
        Inl e \<Rightarrow> Inl e
      | Inr table' \<Rightarrow> populate_table_from tz table' (i + 1) data_lists)"

definition populate_table :: "tzinfo \<Rightarrow> table \<Rightarrow> timeslot list list \<Rightarrow> error + table" where
  "populate_table tz table data_lists = populate_table_from tz table 0 data_lists"

section \<open>Orchestration\<close>

text \<open>
  A schedule, as \<^verbatim>\<open>tabulate\<close> reads it: \<^verbatim>\<open>start\<close> and \<^verbatim>\<open>data\<close>, the latter a string
  (an error signifier) or the list of timeslots.  The result of \<^verbatim>\<open>tabulate\<close> is that
  string or the table.
\<close>

record schedule =
  sched_start :: datetime
  sched_data :: "string + timeslot list"

definition tabulate :: "tzinfo \<Rightarrow> schedule \<Rightarrow> error + (string + table)" where
  "tabulate tz sched =
     (case sched_data sched of
        Inl signifier \<Rightarrow> Inr (Inl signifier)
      | Inr slots \<Rightarrow>
          (let nlstart = nld tz (sched_start sched)
           in case split_days tz nlstart slots of
                Inl e \<Rightarrow> Inl e
              | Inr (data_lists, partitions) \<Rightarrow>
                  (case populate_table tz
                          (empty_table nlstart partitions (length data_lists)) data_lists of
                     Inl e \<Rightarrow> Inl e
                   | Inr table \<Rightarrow> Inr (Inr table))))"

section \<open>The gap filler\<close>

text \<open>
  Modelled from the spec: the methods \<^verbatim>\<open>range_start()\<close> and \<^verbatim>\<open>range_end()\<close> of a timeslot
  are not in the sources; the specification calls them the canonical boundaries of the
  slot, used for chaining gap-free sequences.
\<close>

definition range_start :: "timeslot \<Rightarrow> datetime" where
  "range_start slot = start_time slot"

definition range_end :: "timeslot \<Rightarrow> datetime" where
  "range_end slot = end_time slot"

text \<open>
  Modelled from the spec: a synthetic filler slot for the range from \<open>a\<close> to \<open>b\<close>; the module
  \<^verbatim>\<open>schedule.utils.filler\<close> is not in the sources.
\<close>

definition filler_slot :: "datetime \<Rightarrow> datetime \<Rightarrow> timeslot" where
  "filler_slot a b = \<lparr>start_time = a, end_time = b, show_type_name = ''filler''\<rparr>"

text \<open>
  Modelled from the spec: the walk of \<^verbatim>\<open>fill\<close> over the input (the module
  \<^verbatim>\<open>schedule.utils.filler\<close> is not in the sources).  Between each consecutive pair of slots,
  if the first ends before the second starts, a filler slot for the gap is synthesized;
  the slots themselves are kept unchanged and in order.
\<close>

fun fill_between :: "timeslot list \<Rightarrow> timeslot list" where
  "fill_between [] = []"
| "fill_between [slot] = [slot]"
| "fill_between (slot # next_slot # timeslots) =
     slot #
     (if range_end slot < range_start next_slot
      then [filler_slot (range_end slot) (range_start next_slot)] else []) @
     fill_between (next_slot # timeslots)"

text \<open>
  Modelled from the spec: \<^verbatim>\<open>fill(timeslots, start, end)\<close> of \<^verbatim>\<open>schedule.utils.filler\<close>, which
  is not in the sources.  It fails if \<open>start > end\<close> (the tests expect a \<^verbatim>\<open>ValueError\<close>, the
  specification's InvalidRangeError); on the empty list it returns one filler slot for
  the whole range; otherwise a filler slot is put before the first slot if there is a
  gap after \<open>start\<close>, between the slots as above, and after the last slot if there is a
  gap before \<open>end\<close>.
\<close>

definition fill :: "timeslot list \<Rightarrow> datetime \<Rightarrow> datetime \<Rightarrow> error + timeslot list" where
  "fill timeslots start_time' end_time' =
     (if start_time' > end_time' then Inl ValueError
      else if timeslots = [] then Inr [filler_slot start_time' end_time']
      else Inr
        ((if start_time' < range_start (hd timeslots)
          then [filler_slot start_time' (range_start (hd timeslots))] else []) @
         fill_between timeslots @
         (if range_end (last timeslots) < end_time'
          then [filler_slot (range_end (last timeslots)) end_time'] else [])))"

section \<open>Notions used in the statements\<close>

text \<open>
  The list \<^verbatim>\<open>rotate_day\<close> returns for the new day, as a function of the boundary and of the
  day list that is closed: the last show when its local end is after the boundary.
\<close>

definition carried_over :: "tzinfo \<Rightarrow> datetime \<Rightarrow> timeslot list \<Rightarrow> timeslot list" where
  "carried_over tz boundary closed =
     (if nld tz (end_time (last closed)) > boundary then [last closed] else [])"

text \<open>
  The local-time distances from the start of day \<open>i\<close> to the starts of the slots appended
  on day \<open>i\<close> (the list \<open>segs ! i\<close>), for the slots that start strictly after that start.
\<close>

definition day_offsets :: "tzinfo \<Rightarrow> datetime \<Rightarrow> timeslot list list \<Rightarrow> timedelta set" where
  "day_offsets tz nlstart segs =
     {nld tz (start_time s) - (nlstart + int i * DAY) | i s.
        i < length segs \<and> s \<in> set (segs ! i) \<and> nld tz (start_time s) > nlstart + int i * DAY}"

text \<open>
  The day lists \<open>days\<close> against the lists \<open>segs\<close> of the slots appended on each day: the
  first day list is its own slots; each later one is what was carried over the boundary
  \<open>nlstart + (i + 1) * DAY\<close> from the day before, followed by its own slots.
\<close>

definition days_match :: "tzinfo \<Rightarrow> datetime \<Rightarrow> timeslot list list \<Rightarrow> timeslot list list \<Rightarrow> bool" where
  "days_match tz nlstart days segs =
     (length segs = length days \<and> days \<noteq> [] \<and> days ! 0 = segs ! 0 \<and>
      (\<forall>i. Suc i < length days \<longrightarrow>
          days ! Suc i =
            carried_over tz (nlstart + int (Suc i) * DAY) (days ! i) @ segs ! Suc i))"

text \<open>
  The invariant of the loops of \<^verbatim>\<open>split_days\<close>, for the slots processed so far, split
  into \<open>segs\<close>.
\<close>

definition sd_inv :: "tzinfo \<Rightarrow> datetime \<Rightarrow> split_state \<Rightarrow> timeslot list list \<Rightarrow> bool" where
  "sd_inv tz nlstart st segs =
     (days_match tz nlstart (sd_done_day_lists st @ [sd_day_list st]) segs \<and>
      sd_day_start st = nlstart + int (length (sd_done_day_lists st)) * DAY \<and>
      sd_day_end st = sd_day_start st + DAY \<and>
      [] \<notin> set (sd_done_day_lists st) \<and>
      sd_partitions st = insert 0 (day_offsets tz nlstart segs) \<and>
      (\<forall>p \<in> sd_partitions st. 0 \<le> p \<and> p < DAY))"

text \<open>
  The invariant of the loop of \<^verbatim>\<open>populate_table_day\<close> for one column, with the cursor at
  row \<open>c\<close>: the rows after the cursor hold \<^verbatim>\<open>None\<close>, and every cell \<open>(s, k)\<close> holds a slot of
  \<open>S\<close>, ends at or before the cursor and is followed by \<open>k - 1\<close> rows of \<^verbatim>\<open>None\<close>.
\<close>

definition spans_ok :: "nat \<Rightarrow> timeslot set \<Rightarrow> nat \<Rightarrow> table \<Rightarrow> bool" where
  "spans_ok col S c t =
     (c \<le> length t \<and>
      (\<forall>r<length t.
         (c < r \<longrightarrow> t ! r ! col = NoneCell) \<and>
         (\<forall>s k. t ! r ! col = SlotCell s k \<longrightarrow>
            s \<in> S \<and> r + k \<le> c \<and> (\<forall>j. 0 < j \<and> j < k \<longrightarrow> t ! (r + j) ! col = NoneCell))))"

text \<open>The same of a finished column, with the end of the table in place of the cursor.\<close>

definition spans_fine :: "nat \<Rightarrow> timeslot set \<Rightarrow> table \<Rightarrow> bool" where
  "spans_fine col S t =
     (\<forall>r<length t. \<forall>s k. t ! r ! col = SlotCell s k \<longrightarrow>
        s \<in> S \<and> r + k \<le> length t \<and>
        (\<forall>j. 0 < j \<and> j < k \<longrightarrow> t ! (r + j) ! col = NoneCell))"

text \<open>
  The slots of \<open>day\<close> stand one after another in the column of day \<open>d\<close>, from row \<open>c\<close> on:
  the first slot \<open>s\<close> is the cell \<open>(s, k)\<close> of row \<open>c\<close> with \<open>k\<close> at least one; the \<open>k\<close> rows from
  \<open>c\<close> on have times (plus the day offset) earlier than the local end of \<open>s\<close>; row \<open>c + k\<close>
  is the end of the table or has exactly that local end as its time; and the other
  slots stand from row \<open>c + k\<close> on in the same way.
\<close>

fun laid_out :: "tzinfo \<Rightarrow> table \<Rightarrow> nat \<Rightarrow> nat \<Rightarrow> timeslot list \<Rightarrow> bool" where
  "laid_out tz t d c [] = True"
| "laid_out tz t d c (s # day) =
     (c < length t \<and>
      (\<exists>k>0. t ! c ! (SCHEDULE_DAY_OFFSET + d) = SlotCell s k \<and>
         (\<forall>r. c \<le> r \<and> r < c + k \<longrightarrow>
            (\<exists>x. make_row_date t d r = Inr x \<and> x < nld tz (end_time s))) \<and>
         (c + k = length t \<or> make_row_date t d (c + k) = Inr (nld tz (end_time s))) \<and>
         laid_out tz t d (c + k) day))"

section \<open>The partitioner without its check\<close>

text \<open>
  What the rotations would store if \<^verbatim>\<open>rotate_day\<close> did not raise on an empty day list:
  the same loops with the check left out (an empty day is closed and nothing is carried
  over from it).  These functions are not part of the program; they say which days a run
  would close, to state when \<^verbatim>\<open>split_days\<close> raises.
\<close>

function rotate_while_unchecked :: "tzinfo \<Rightarrow> datetime \<Rightarrow> split_state \<Rightarrow> split_state" where
  "rotate_while_unchecked tz nlslot st =
     (if sd_day_end st \<le> nlslot then
        rotate_while_unchecked tz nlslot
          (st\<lparr>sd_day_list :=
                 (if sd_day_list st = [] then []
                  else carried_over tz (sd_day_end st) (sd_day_list st)),
              sd_done_day_lists := sd_done_day_lists st @ [sd_day_list st],
              sd_day_start := sd_day_end st, sd_day_end := sd_day_end st + DAY\<rparr>)
      else st)"
  by pat_completeness auto
termination
  by (relation "measure (\<lambda>(tz, nlslot, st). nat (nlslot - sd_day_end st + 1))")
     (auto simp: DAY_def)

declare rotate_while_unchecked.simps [simp del]

definition split_days_slot_unchecked :: "tzinfo \<Rightarrow> split_state \<Rightarrow> timeslot \<Rightarrow> split_state" where
  "split_days_slot_unchecked tz st slot =
     (let nlslot = nld tz (start_time slot);
          st' = rotate_while_unchecked tz nlslot st
      in st'\<lparr>sd_day_list := sd_day_list st' @ [slot],
             sd_partitions :=
               (if nlslot > sd_day_start st'
                then insert (nlslot - sd_day_start st') (sd_partitions st')
                else sd_partitions st')\<rparr>)"

text \<open>The day lists the rotations would close on the whole input.\<close>

definition closed_days_unchecked :: "tzinfo \<Rightarrow> datetime \<Rightarrow> timeslot list \<Rightarrow> timeslot list list" where
  "closed_days_unchecked tz nlstart data =
     sd_done_day_lists
       (foldl (split_days_slot_unchecked tz)
          \<lparr>sd_done_day_lists = [], sd_day_list = [], sd_partitions = {0},
           sd_day_start = nlstart, sd_day_end = nlstart + DAY\<rparr> data)"

section \<open>A concrete schedule\<close>

text \<open>
  Scenario D of the specification in UTC, with the schedule starting at local time 0:
  filler until 23:00, a show from 23:00 to 01:00 of the next day, filler until the end of
  the second day; and the day lists \<^verbatim>\<open>split_days\<close> makes of it.
\<close>

definition utc :: tzinfo where
  "utc = (\<lambda>t. 0)"

definition hours :: "int \<Rightarrow> timedelta" where
  "hours n = n * 3600000000"

definition scenario_d :: "timeslot list" where
  "scenario_d =
     [\<lparr>start_time = 0, end_time = hours 23, show_type_name = ''filler''\<rparr>,
      \<lparr>start_time = hours 23, end_time = hours 25, show_type_name = ''show''\<rparr>,
      \<lparr>start_time = hours 25, end_time = hours 48, show_type_name = ''filler''\<rparr>]"

definition scenario_d_days :: "timeslot list list" where
  "scenario_d_days =
     [[\<lparr>start_time = 0, end_time = hours 23, show_type_name = ''filler''\<rparr>,
       \<lparr>start_time = hours 23, end_time = hours 25, show_type_name = ''show''\<rparr>],
      [\<lparr>start_time = hours 23, end_time = hours 25, show_type_name = ''show''\<rparr>,
       \<lparr>start_time = hours 25, end_time = hours 48, show_type_name = ''filler''\<rparr>]]"

text \<open>A schedule whose only slot starts in the second day: the first day has no slot.\<close>

definition late_start :: "timeslot list" where
  "late_start = [\<lparr>start_time = hours 30, end_time = hours 31, show_type_name = ''show''\<rparr>]"

text \<open>
  A table with rows at 00:00 and 12:00 and a day whose only slot ends at 06:00, between
  the two rows; and the same slot followed by one from 12:00 to 24:00, a schedule with a
  gap from 06:00 to 12:00.
\<close>

definition short_slot :: timeslot where
  "short_slot = \<lparr>start_time = 0, end_time = hours 6, show_type_name = ''show''\<rparr>"

definition noon_slot :: timeslot where
  "noon_slot = \<lparr>start_time = hours 12, end_time = hours 24, show_type_name = ''show''\<rparr>"

text \<open>The table of scenario D: rows at 00:00, 01:00 and 23:00, one column for each day.\<close>

definition scenario_d_table :: table where
  "scenario_d_table =
     [[DateCell 0,
       SlotCell \<lparr>start_time = 0, end_time = hours 23, show_type_name = ''filler''\<rparr> 2,
       SlotCell \<lparr>start_time = hours 23, end_time = hours 25, show_type_name = ''show''\<rparr> 1],
      [DateCell (hours 1),
       NoneCell,
       SlotCell \<lparr>start_time = hours 25, end_time = hours 48, show_type_name = ''filler''\<rparr> 2],
      [DateCell (hours 23),
       SlotCell \<lparr>start_time = hours 23, end_time = hours 25, show_type_name = ''show''\<rparr> 1,
       NoneCell]]"



text \<open>Scenario B of the specification: one show from 09:00 to 10:00.\<close>

definition show_a :: timeslot where
  "show_a = \<lparr>start_time = hours 9, end_time = hours 10, show_type_name = ''show''\<rparr>"

text \<open>
  A day list whose first slot ends exactly at the start of the schedule, local time 0,
  and whose second slot is the first hour.
\<close>

definition early_slot :: timeslot where
  "early_slot = \<lparr>start_time = hours (- 1), end_time = 0, show_type_name = ''early''\<rparr>"

definition first_hour :: timeslot where
  "first_hour = \<lparr>start_time = 0, end_time = hours 1, show_type_name = ''show''\<rparr>"

section \<open>Properties of the day partitioner\<close>

subsection \<open>The invariant of the loops\<close>

lemma days_match_rotate:
  assumes m: "days_match tz nlstart days segs"
  shows "days_match tz nlstart
           (days @ [carried_over tz (nlstart + int (length days) * DAY) (last days)])
           (segs @ [[]])"
proof -
  let ?c = "carried_over tz (nlstart + int (length days) * DAY) (last days)"
  have len: "length segs = length days" and ne: "days \<noteq> []" and z: "days ! 0 = segs ! 0"
    using m by (simp_all add: days_match_def)
  have step: "days ! Suc i = carried_over tz (nlstart + int (Suc i) * DAY) (days ! i) @ segs ! Suc i"
    if "Suc i < length days" for i
    using m that by (simp add: days_match_def)
  have "(days @ [?c]) ! Suc i =
          carried_over tz (nlstart + int (Suc i) * DAY) ((days @ [?c]) ! i) @ (segs @ [[]]) ! Suc i"
    if i: "Suc i < length (days @ [?c])" for i
  proof (cases "Suc i < length days")
    case True
    then have "i < length days" by simp
    with True show ?thesis using step [OF True] len by (simp add: nth_append)
  next
    case False
    then have ie: "Suc i = length days" using i by simp
    then have "i < length days" by simp
    moreover have "length days - 1 = i" using ie by simp
    then have "days ! i = last days" using ne by (simp add: last_conv_nth)
    ultimately show ?thesis using ie len
      by (simp add: nth_append del: of_nat_Suc)
  qed
  moreover have "(days @ [?c]) ! 0 = (segs @ [[]]) ! 0"
    using ne z len by (cases days; cases segs) simp_all
  ultimately show ?thesis
    unfolding days_match_def using len by simp
qed

lemma days_match_append:
  assumes m: "days_match tz nlstart (days @ [l]) (segs @ [sg])"
  shows "days_match tz nlstart (days @ [l @ [s]]) (segs @ [sg @ [s]])"
proof -
  have len: "length segs = length days" using m by (simp add: days_match_def)
  have z: "(days @ [l]) ! 0 = (segs @ [sg]) ! 0" using m by (simp add: days_match_def)
  have step: "(days @ [l]) ! Suc i =
      carried_over tz (nlstart + int (Suc i) * DAY) ((days @ [l]) ! i) @ (segs @ [sg]) ! Suc i"
    if "Suc i < length (days @ [l])" for i
    using m that by (simp add: days_match_def)
  have "(days @ [l @ [s]]) ! Suc i =
      carried_over tz (nlstart + int (Suc i) * DAY) ((days @ [l @ [s]]) ! i) @ (segs @ [sg @ [s]]) ! Suc i"
    if i: "Suc i < length (days @ [l @ [s]])" for i
  proof (cases "Suc i < length days")
    case True
    then have "i < length days" by simp
    with True show ?thesis using step [of i] len by (simp add: nth_append)
  next
    case False
    then have ie: "Suc i = length days" using i by simp
    then have "i < length days" by simp
    then show ?thesis using step [of i] ie len by (simp add: nth_append del: of_nat_Suc)
  qed
  moreover have "(days @ [l @ [s]]) ! 0 = (segs @ [sg @ [s]]) ! 0"
    using z len by (cases days; cases segs) simp_all
  ultimately show ?thesis
    unfolding days_match_def using len by simp
qed

lemma day_offsets_snoc_empty: "day_offsets tz nlstart (segs @ [[]]) = day_offsets tz nlstart segs"
proof -
  have "(i < Suc (length segs) \<and> s \<in> set ((segs @ [[]]) ! i) \<and> P) =
        (i < length segs \<and> s \<in> set (segs ! i) \<and> P)"
    for i s P
    by (cases "i < length segs") (auto simp: nth_append less_Suc_eq)
  then show ?thesis unfolding day_offsets_def by simp
qed

lemma day_offsets_snoc_slot:
  "day_offsets tz nlstart (segs @ [sg @ [s]]) =
     (if nld tz (start_time s) > nlstart + int (length segs) * DAY
      then insert (nld tz (start_time s) - (nlstart + int (length segs) * DAY))
             (day_offsets tz nlstart (segs @ [sg]))
      else day_offsets tz nlstart (segs @ [sg]))"
proof -
  have mem: "(i < Suc (length segs) \<and> x \<in> set ((segs @ [sg @ [s]]) ! i) \<and> P) =
        ((i < Suc (length segs) \<and> x \<in> set ((segs @ [sg]) ! i) \<and> P) \<or> (i = length segs \<and> x = s \<and> P))"
    for i x P
    by (cases "i < length segs") (auto simp: nth_append less_Suc_eq)
  have "day_offsets tz nlstart (segs @ [sg @ [s]]) =
        day_offsets tz nlstart (segs @ [sg]) \<union>
        {d. d = nld tz (start_time s) - (nlstart + int (length segs) * DAY) \<and>
            nld tz (start_time s) > nlstart + int (length segs) * DAY}"
    unfolding day_offsets_def
    apply (rule set_eqI)
    apply (simp add: mem)
    apply blast
    done
  then show ?thesis by auto
qed

lemma sd_inv_rotate:
  assumes inv: "sd_inv tz nlstart st segs" and ne: "sd_day_list st \<noteq> []"
  shows "sd_inv tz nlstart
           (st\<lparr>sd_day_list := carried_over tz (sd_day_end st) (sd_day_list st),
               sd_done_day_lists := sd_done_day_lists st @ [sd_day_list st],
               sd_day_start := sd_day_end st, sd_day_end := sd_day_end st + DAY\<rparr>)
           (segs @ [[]])"
proof -
  let ?D = "sd_done_day_lists st @ [sd_day_list st]"
  have e: "sd_day_end st = nlstart + int (length ?D) * DAY"
    using inv by (simp add: sd_inv_def algebra_simps)
  have "days_match tz nlstart (?D @ [carried_over tz (nlstart + int (length ?D) * DAY) (last ?D)])
          (segs @ [[]])"
    using inv by (intro days_match_rotate) (simp add: sd_inv_def)
  then have "days_match tz nlstart (?D @ [carried_over tz (sd_day_end st) (sd_day_list st)]) (segs @ [[]])"
    using e by simp
  then show ?thesis
    using inv ne e by (simp add: sd_inv_def day_offsets_snoc_empty)
qed

lemma rotate_while_inv:
  "sd_inv tz nlstart st segs \<Longrightarrow> rotate_while tz nlslot st = Inr st' \<Longrightarrow>
     \<exists>k. sd_inv tz nlstart st' (segs @ replicate k []) \<and> nlslot < sd_day_end st'"
proof (induction tz nlslot st arbitrary: segs rule: rotate_while.induct)
  case (1 tz nlslot st)
  show ?case
  proof (cases "sd_day_end st \<le> nlslot")
    case False
    then have "st' = st" using "1.prems"(2) by (simp add: rotate_while.simps)
    then have "sd_inv tz nlstart st' (segs @ replicate 0 [])" using "1.prems"(1) by simp
    then show ?thesis using False \<open>st' = st\<close> by (intro exI [of _ 0]) simp
  next
    case True
    show ?thesis
    proof (cases "sd_day_list st = []")
      case True
      then show ?thesis using "1.prems"(2) \<open>sd_day_end st \<le> nlslot\<close>
        by (simp add: rotate_while.simps [of tz nlslot st] rotate_day_def)
    next
      case False
      let ?st1 = "st\<lparr>sd_day_list := carried_over tz (sd_day_end st) (sd_day_list st),
               sd_done_day_lists := sd_done_day_lists st @ [sd_day_list st],
               sd_day_start := sd_day_end st, sd_day_end := sd_day_end st + DAY\<rparr>"
      have rd: "rotate_day tz (sd_day_end st) (sd_day_list st) (sd_done_day_lists st) =
                Inr (carried_over tz (sd_day_end st) (sd_day_list st), sd_done_day_lists st @ [sd_day_list st])"
        using False by (simp add: rotate_day_def carried_over_def Let_def)
      have run: "rotate_while tz nlslot ?st1 = Inr st'"
        using "1.prems"(2) True rd by (simp add: rotate_while.simps [of tz nlslot st])
      have "sd_inv tz nlstart ?st1 (segs @ [[]])"
        using "1.prems"(1) False by (rule sd_inv_rotate)
      from "1.IH" [OF True rd refl this run]
      obtain k where "sd_inv tz nlstart st' ((segs @ [[]]) @ replicate k [])" "nlslot < sd_day_end st'"
        by blast
      then have "sd_inv tz nlstart st' (segs @ replicate (Suc k) [])" by simp
      then show ?thesis using \<open>nlslot < sd_day_end st'\<close> by blast
    qed
  qed
qed

lemma replicate_Nil_snoc: "segs @ replicate k [] \<noteq> [] \<Longrightarrow>
  \<exists>segs' sg. segs @ replicate k [] = segs' @ [sg] \<and> concat segs' @ sg = concat segs"
proof (cases k)
  case 0
  assume "segs @ replicate k [] \<noteq> []"
  with 0 have "segs \<noteq> []" by simp
  then have "segs = butlast segs @ [last segs]" by simp
  moreover have "concat (butlast segs) @ last segs = concat segs"
    using \<open>segs \<noteq> []\<close> by (metis append_butlast_last_id concat.simps(2) concat_append concat.simps(1) append_Nil2)
  ultimately show ?thesis using 0 by (metis append_Nil2 replicate_0)
next
  case (Suc n)
  have "segs @ replicate (Suc n) [] = (segs @ replicate n []) @ [[]]"
    by (simp add: replicate_append_same)
  moreover have "concat (segs @ replicate n []) @ [] = concat segs" by simp
  ultimately show ?thesis using Suc by blast
qed

lemma split_days_slot_inv:
  assumes inv: "sd_inv tz nlstart st segs" and run: "split_days_slot tz st slot = Inr st'"
  shows "\<exists>segs'. sd_inv tz nlstart st' segs' \<and> concat segs' = concat segs @ [slot]"
proof -
  let ?nl = "nld tz (start_time slot)"
  obtain st1 where rw: "rotate_while tz ?nl st = Inr st1"
    and st': "st' = st1\<lparr>sd_day_list := sd_day_list st1 @ [slot],
                      sd_partitions :=
                        (if ?nl > sd_day_start st1
                         then insert (?nl - sd_day_start st1) (sd_partitions st1)
                         else sd_partitions st1)\<rparr>"
    using run by (auto simp: split_days_slot_def Let_def split: sum.splits)
  from rotate_while_inv [OF inv rw] obtain k where
    inv1: "sd_inv tz nlstart st1 (segs @ replicate k [])" and lt: "?nl < sd_day_end st1"
    by blast
  have "segs @ replicate k [] \<noteq> []"
    using inv1 by (auto simp: sd_inv_def days_match_def)
  from replicate_Nil_snoc [OF this] obtain segs1 sg where
    eq: "segs @ replicate k [] = segs1 @ [sg]" and cc: "concat segs1 @ sg = concat segs"
    by blast
  have inv1': "sd_inv tz nlstart st1 (segs1 @ [sg])" using inv1 eq by simp
  have len: "length segs1 = length (sd_done_day_lists st1)"
    using inv1' by (simp add: sd_inv_def days_match_def)
  have dm: "days_match tz nlstart (sd_done_day_lists st1 @ [sd_day_list st1 @ [slot]]) (segs1 @ [sg @ [slot]])"
    using inv1' by (intro days_match_append) (simp add: sd_inv_def)
  have ds: "sd_day_start st1 = nlstart + int (length segs1) * DAY"
    using inv1' len by (simp add: sd_inv_def)
  have de: "sd_day_end st1 = sd_day_start st1 + DAY" using inv1' by (simp add: sd_inv_def)
  have "sd_inv tz nlstart st' (segs1 @ [sg @ [slot]])"
    using inv1' dm lt de unfolding st' sd_inv_def
    by (auto simp: day_offsets_snoc_slot ds [symmetric])
  moreover have "concat (segs1 @ [sg @ [slot]]) = concat segs @ [slot]"
    using cc by simp
  ultimately show ?thesis by blast
qed

lemma split_days_loop_inv:
  "sd_inv tz nlstart st segs \<Longrightarrow> split_days_loop tz st data = Inr st' \<Longrightarrow>
     \<exists>segs'. sd_inv tz nlstart st' segs' \<and> concat segs' = concat segs @ data"
proof (induction data arbitrary: st segs)
  case Nil
  then show ?case by auto
next
  case (Cons slot data)
  from Cons.prems(2) obtain st1 where s1: "split_days_slot tz st slot = Inr st1"
    and rest: "split_days_loop tz st1 data = Inr st'"
    by (auto split: sum.splits)
  from split_days_slot_inv [OF Cons.prems(1) s1] obtain segs1 where
    "sd_inv tz nlstart st1 segs1" "concat segs1 = concat segs @ [slot]" by blast
  with Cons.IH [OF _ rest] show ?case by fastforce
qed

lemma sd_inv_init:
  "sd_inv tz nlstart \<lparr>sd_done_day_lists = [], sd_day_list = [], sd_partitions = {0},
              sd_day_start = nlstart, sd_day_end = nlstart + DAY\<rparr> [[]]"
  by (simp add: sd_inv_def days_match_def day_offsets_def DAY_def)

lemma split_days_decomposition:
  assumes "split_days tz nlstart data = Inr (days, parts)"
  shows "\<exists>segs. concat segs = data \<and> days_match tz nlstart days segs \<and>
           [] \<notin> set (butlast days) \<and>
           parts = insert 0 (day_offsets tz nlstart segs) \<and>
           (\<forall>p \<in> parts. 0 \<le> p \<and> p < DAY)"
proof -
  from assms obtain st where run: "split_days_loop tz
             \<lparr>sd_done_day_lists = [], sd_day_list = [], sd_partitions = {0},
              sd_day_start = nlstart, sd_day_end = nlstart + DAY\<rparr> data = Inr st"
    and d: "days = sd_done_day_lists st @ [sd_day_list st]" and p: "parts = sd_partitions st"
    by (auto simp: split_days_def split: sum.splits)
  from split_days_loop_inv [OF sd_inv_init run] obtain segs where
    "sd_inv tz nlstart st segs" "concat segs = data" by auto
  then show ?thesis unfolding d p sd_inv_def by (intro exI [of _ segs]) simp
qed

subsection \<open>The run without the check\<close>

lemma rotate_while_unchecked_mono:
  "[] \<in> set (sd_done_day_lists st) \<Longrightarrow>
   [] \<in> set (sd_done_day_lists (rotate_while_unchecked tz nlslot st))"
proof (induction tz nlslot st rule: rotate_while_unchecked.induct)
  case (1 tz nlslot st)
  show ?case
  proof (cases "sd_day_end st \<le> nlslot")
    case True
    then show ?thesis
      using "1.IH" [OF True] "1.prems"
      by (subst rotate_while_unchecked.simps) simp
  next
    case False
    then show ?thesis using "1.prems" by (subst rotate_while_unchecked.simps) simp
  qed
qed

lemma split_days_slot_unchecked_mono:
  "[] \<in> set (sd_done_day_lists st) \<Longrightarrow>
   [] \<in> set (sd_done_day_lists (split_days_slot_unchecked tz st slot))"
  by (simp add: split_days_slot_unchecked_def Let_def rotate_while_unchecked_mono)

lemma foldl_unchecked_mono:
  "[] \<in> set (sd_done_day_lists st) \<Longrightarrow>
   [] \<in> set (sd_done_day_lists (foldl (split_days_slot_unchecked tz) st data))"
  by (induction data arbitrary: st) (simp_all add: split_days_slot_unchecked_mono)

lemma rotate_while_unchecked_agrees:
  "rotate_while tz nlslot st = Inr st' \<Longrightarrow> rotate_while_unchecked tz nlslot st = st'"
proof (induction tz nlslot st rule: rotate_while.induct)
  case (1 tz nlslot st)
  show ?case
  proof (cases "sd_day_end st \<le> nlslot")
    case False
    then have "st' = st" using "1.prems" by (simp add: rotate_while.simps [of tz nlslot st])
    moreover have "rotate_while_unchecked tz nlslot st = st"
      using False by (subst rotate_while_unchecked.simps) simp
    ultimately show ?thesis by simp
  next
    case True
    show ?thesis
    proof (cases "sd_day_list st = []")
      case True
      then show ?thesis using "1.prems" \<open>sd_day_end st \<le> nlslot\<close>
        by (simp add: rotate_while.simps [of tz nlslot st] rotate_day_def)
    next
      case False
      have rd: "rotate_day tz (sd_day_end st) (sd_day_list st) (sd_done_day_lists st) =
                Inr (carried_over tz (sd_day_end st) (sd_day_list st), sd_done_day_lists st @ [sd_day_list st])"
        using False by (simp add: rotate_day_def carried_over_def Let_def)
      have run: "rotate_while tz nlslot (st\<lparr>sd_day_list := carried_over tz (sd_day_end st) (sd_day_list st),
               sd_done_day_lists := sd_done_day_lists st @ [sd_day_list st],
               sd_day_start := sd_day_end st, sd_day_end := sd_day_end st + DAY\<rparr>) = Inr st'"
        using "1.prems" True rd by (simp add: rotate_while.simps [of tz nlslot st])
      from "1.IH" [OF True rd refl run] show ?thesis
        using True False by (subst rotate_while_unchecked.simps) simp
    qed
  qed
qed

lemma rotate_while_raises:
  "rotate_while tz nlslot st = Inl e \<Longrightarrow>
   e = ScheduleInconsistencyError \<and>
   [] \<in> set (sd_done_day_lists (rotate_while_unchecked tz nlslot st))"
proof (induction tz nlslot st rule: rotate_while.induct)
  case (1 tz nlslot st)
  show ?case
  proof (cases "sd_day_end st \<le> nlslot")
    case False
    then show ?thesis using "1.prems" by (simp add: rotate_while.simps [of tz nlslot st])
  next
    case True
    show ?thesis
    proof (cases "sd_day_list st = []")
      case True
      have "e = ScheduleInconsistencyError" using "1.prems" True \<open>sd_day_end st \<le> nlslot\<close>
        by (simp add: rotate_while.simps [of tz nlslot st] rotate_day_def)
      moreover have "[] \<in> set (sd_done_day_lists (rotate_while_unchecked tz nlslot st))"
        using True \<open>sd_day_end st \<le> nlslot\<close>
        by (subst rotate_while_unchecked.simps) (simp add: rotate_while_unchecked_mono)
      ultimately show ?thesis by simp
    next
      case False
      have rd: "rotate_day tz (sd_day_end st) (sd_day_list st) (sd_done_day_lists st) =
                Inr (carried_over tz (sd_day_end st) (sd_day_list st), sd_done_day_lists st @ [sd_day_list st])"
        using False by (simp add: rotate_day_def carried_over_def Let_def)
      have run: "rotate_while tz nlslot (st\<lparr>sd_day_list := carried_over tz (sd_day_end st) (sd_day_list st),
               sd_done_day_lists := sd_done_day_lists st @ [sd_day_list st],
               sd_day_start := sd_day_end st, sd_day_end := sd_day_end st + DAY\<rparr>) = Inl e"
        using "1.prems" True rd by (simp add: rotate_while.simps [of tz nlslot st])
      from "1.IH" [OF True rd refl run] show ?thesis
        using True False by (subst rotate_while_unchecked.simps) simp
    qed
  qed
qed

lemma split_days_loop_unchecked_agrees:
  "split_days_loop tz st data = Inr st' \<Longrightarrow> foldl (split_days_slot_unchecked tz) st data = st'"
proof (induction data arbitrary: st)
  case Nil
  then show ?case by simp
next
  case (Cons slot data)
  from Cons.prems obtain st1 where s1: "split_days_slot tz st slot = Inr st1"
    and rest: "split_days_loop tz st1 data = Inr st'"
    by (auto split: sum.splits)
  from s1 have "split_days_slot_unchecked tz st slot = st1"
    by (auto simp: split_days_slot_def split_days_slot_unchecked_def Let_def
        dest: rotate_while_unchecked_agrees split: sum.splits)
  with Cons.IH [OF rest] show ?case by simp
qed

lemma split_days_loop_raises:
  "split_days_loop tz st data = Inl e \<Longrightarrow>
   e = ScheduleInconsistencyError \<and>
   [] \<in> set (sd_done_day_lists (foldl (split_days_slot_unchecked tz) st data))"
proof (induction data arbitrary: st)
  case Nil
  then show ?case by simp
next
  case (Cons slot data)
  show ?case
  proof (cases "split_days_slot tz st slot")
    case (Inl e')
    then have rw: "rotate_while tz (nld tz (start_time slot)) st = Inl e'"
      by (auto simp: split_days_slot_def Let_def split: sum.splits)
    have "e = e'" using Cons.prems Inl by simp
    from rotate_while_raises [OF rw]
    have "e' = ScheduleInconsistencyError"
      "[] \<in> set (sd_done_day_lists (split_days_slot_unchecked tz st slot))"
      by (simp_all add: split_days_slot_unchecked_def Let_def)
    then show ?thesis using \<open>e = e'\<close> by (simp add: foldl_unchecked_mono)
  next
    case (Inr st1)
    then have "split_days_slot_unchecked tz st slot = st1"
      by (auto simp: split_days_slot_def split_days_slot_unchecked_def Let_def
          dest: rotate_while_unchecked_agrees split: sum.splits)
    moreover have "split_days_loop tz st1 data = Inl e" using Cons.prems Inr by simp
    ultimately show ?thesis using Cons.IH by simp
  qed
qed

subsection \<open>Inputs on which the partitioner returns\<close>

text \<open>
  \<open>split_days\<close> raises nothing when no slot starts, in local time, after the slot before it
  has ended, and the first slot starts before the end of the first day: gap-free input
  from the schedule's start on never closes an empty day.
\<close>

lemma rotate_while_returns:
  "(sd_day_list st \<noteq> [] \<and> nlslot \<le> nld tz (end_time (last (sd_day_list st)))) \<or>
   nlslot < sd_day_end st \<Longrightarrow>
   \<exists>st'. rotate_while tz nlslot st = Inr st'"
proof (induction tz nlslot st rule: rotate_while.induct)
  case (1 tz nlslot st)
  show ?case
  proof (cases "sd_day_end st \<le> nlslot")
    case False
    then show ?thesis by (simp add: rotate_while.simps [of tz nlslot st])
  next
    case True
    with "1.prems" have ne: "sd_day_list st \<noteq> []"
      and le: "nlslot \<le> nld tz (end_time (last (sd_day_list st)))" by auto
    let ?st1 = "st\<lparr>sd_day_list := carried_over tz (sd_day_end st) (sd_day_list st),
               sd_done_day_lists := sd_done_day_lists st @ [sd_day_list st],
               sd_day_start := sd_day_end st, sd_day_end := sd_day_end st + DAY\<rparr>"
    have rd: "rotate_day tz (sd_day_end st) (sd_day_list st) (sd_done_day_lists st) =
                Inr (carried_over tz (sd_day_end st) (sd_day_list st), sd_done_day_lists st @ [sd_day_list st])"
      using ne by (simp add: rotate_day_def carried_over_def Let_def)
    have "(sd_day_list ?st1 \<noteq> [] \<and> nlslot \<le> nld tz (end_time (last (sd_day_list ?st1)))) \<or>
          nlslot < sd_day_end ?st1"
      using le by (auto simp: carried_over_def DAY_def)
    from "1.IH" [OF True rd refl this] obtain st' where "rotate_while tz nlslot ?st1 = Inr st'"
      by blast
    then show ?thesis using True rd by (simp add: rotate_while.simps [of tz nlslot st])
  qed
qed

lemma split_days_loop_returns:
  "successively (\<lambda>p q. nld tz (start_time q) \<le> nld tz (end_time p)) (slot # data) \<Longrightarrow>
   (sd_day_list st \<noteq> [] \<and>
    nld tz (start_time slot) \<le> nld tz (end_time (last (sd_day_list st)))) \<or>
   nld tz (start_time slot) < sd_day_end st \<Longrightarrow>
   \<exists>st'. split_days_loop tz st (slot # data) = Inr st'"
proof (induction data arbitrary: st slot)
  case Nil
  from rotate_while_returns [OF Nil.prems(2)] show ?case
    by (auto simp: split_days_slot_def Let_def)
next
  case (Cons next_slot data)
  from rotate_while_returns [OF Cons.prems(2)] obtain st1 where
    rw: "rotate_while tz (nld tz (start_time slot)) st = Inr st1" by blast
  then obtain st2 where s: "split_days_slot tz st slot = Inr st2"
    and l: "sd_day_list st2 = sd_day_list st1 @ [slot]"
    by (simp add: split_days_slot_def Let_def)
  have "successively (\<lambda>p q. nld tz (start_time q) \<le> nld tz (end_time p)) (next_slot # data)"
    and "nld tz (start_time next_slot) \<le> nld tz (end_time slot)"
    using Cons.prems(1) by simp_all
  with Cons.IH [of next_slot st2] l obtain st' where
    "split_days_loop tz st2 (next_slot # data) = Inr st'" by auto
  with s show ?case by simp
qed

lemma split_days_returns:
  assumes "successively (\<lambda>p q. nld tz (start_time q) \<le> nld tz (end_time p)) data"
    and "data \<noteq> [] \<longrightarrow> nld tz (start_time (hd data)) < nlstart + DAY"
  shows "\<exists>days parts. split_days tz nlstart data = Inr (days, parts)"
proof (cases data)
  case Nil
  then show ?thesis by (simp add: split_days_def)
next
  case (Cons slot rest)
  let ?init = "\<lparr>sd_done_day_lists = [], sd_day_list = [], sd_partitions = {0},
              sd_day_start = nlstart, sd_day_end = nlstart + DAY\<rparr>"
  have "nld tz (start_time slot) < sd_day_end ?init" using assms(2) Cons by simp
  with split_days_loop_returns [of tz slot rest ?init] assms(1) Cons
  obtain st' where "split_days_loop tz ?init data = Inr st'" by auto
  then show ?thesis by (simp add: split_days_def)
qed

subsection \<open>The claims\<close>

lemma split_days_scenario_d:
  "split_days utc 0 scenario_d = Inr (scenario_d_days, {hours 1, hours 23, 0})"
  by (simp add: split_days_def split_days_slot_def rotate_while.simps rotate_day_def nld_def
      DAY_def Let_def utc_def hours_def scenario_d_def scenario_d_days_def)

text \<open>
  C1.  Whenever \<open>split_days\<close> returns, its input is the concatenation of lists \<open>segs\<close>, one
  for each day list, such that the first day list is \<open>segs ! 0\<close> and, at every rotation
  (from day \<open>i\<close> to day \<open>i + 1\<close>), the closed day list is not empty and the new day list is
  the closed list's last slot, if and only if that slot's naive local end is strictly
  after the new day's start \<open>nlstart + (i + 1) * DAY\<close>, followed by the new day's own slots
  \<open>segs ! (i + 1)\<close>.  So a slot that straddles the boundary is the last element of the old
  day list and the first of the new one.  This holds for every input on which
  \<open>split_days\<close> returns, gap-free and time-ordered or not.
\<close>

theorem split_days_carry_over:
  assumes "split_days tz nlstart data = Inr (days, parts)"
  shows "\<exists>segs. concat segs = data \<and> length segs = length days \<and> days ! 0 = segs ! 0 \<and>
           (\<forall>i. Suc i < length days \<longrightarrow>
              days ! i \<noteq> [] \<and>
              days ! Suc i =
                (if nld tz (end_time (last (days ! i))) > nlstart + int (Suc i) * DAY
                 then [last (days ! i)] else []) @ segs ! Suc i \<and>
              (nld tz (end_time (last (days ! i))) > nlstart + int (Suc i) * DAY \<longrightarrow>
                 last (days ! i) \<in> set (days ! i) \<and> hd (days ! Suc i) = last (days ! i)))"
proof -
  from split_days_decomposition [OF assms] obtain segs where
    c: "concat segs = data" and m: "days_match tz nlstart days segs"
    and ne: "[] \<notin> set (butlast days)"
    by blast
  have len: "length segs = length days" and z: "days ! 0 = segs ! 0"
    using m by (simp_all add: days_match_def)
  have "days ! i \<noteq> [] \<and>
        days ! Suc i =
                (if nld tz (end_time (last (days ! i))) > nlstart + int (Suc i) * DAY
                 then [last (days ! i)] else []) @ segs ! Suc i \<and>
        (nld tz (end_time (last (days ! i))) > nlstart + int (Suc i) * DAY \<longrightarrow>
                 last (days ! i) \<in> set (days ! i) \<and> hd (days ! Suc i) = last (days ! i))"
    if i: "Suc i < length days" for i
  proof -
    have "butlast days ! i = days ! i" "i < length (butlast days)"
      using i by (simp_all add: nth_butlast)
    then have n: "days ! i \<noteq> []" using ne by (metis nth_mem)
    have "days ! Suc i = carried_over tz (nlstart + int (Suc i) * DAY) (days ! i) @ segs ! Suc i"
      using m i unfolding days_match_def by blast
    then have e: "days ! Suc i =
                (if nld tz (end_time (last (days ! i))) > nlstart + int (Suc i) * DAY
                 then [last (days ! i)] else []) @ segs ! Suc i"
      unfolding carried_over_def .
    show ?thesis
    proof (intro conjI impI)
      show "days ! i \<noteq> []" by (rule n)
      show "days ! Suc i =
                (if nld tz (end_time (last (days ! i))) > nlstart + int (Suc i) * DAY
                 then [last (days ! i)] else []) @ segs ! Suc i" by (rule e)
      show "last (days ! i) \<in> set (days ! i)" using n by simp
      assume "nld tz (end_time (last (days ! i))) > nlstart + int (Suc i) * DAY"
      then have "days ! Suc i = [last (days ! i)] @ segs ! Suc i" using e by presburger
      then show "hd (days ! Suc i) = last (days ! i)" by simp
    qed
  qed
  then show ?thesis
    using c len z by blast
qed

theorem split_days_carry_over_witness:
  "split_days utc 0 scenario_d = Inr (scenario_d_days, {hours 1, hours 23, 0}) \<and>
   (\<exists>segs. concat segs = scenario_d \<and> length segs = length scenario_d_days \<and>
      scenario_d_days ! 0 = segs ! 0 \<and>
      (\<forall>i. Suc i < length scenario_d_days \<longrightarrow>
              scenario_d_days ! i \<noteq> [] \<and>
              scenario_d_days ! Suc i =
                (if nld utc (end_time (last (scenario_d_days ! i))) > 0 + int (Suc i) * DAY
                 then [last (scenario_d_days ! i)] else []) @ segs ! Suc i \<and>
              (nld utc (end_time (last (scenario_d_days ! i))) > 0 + int (Suc i) * DAY \<longrightarrow>
                 last (scenario_d_days ! i) \<in> set (scenario_d_days ! i) \<and>
                 hd (scenario_d_days ! Suc i) = last (scenario_d_days ! i)))) \<and>
   nld utc (end_time (last (scenario_d_days ! 0))) > 0 + int (Suc 0) * DAY \<and>
   hd (scenario_d_days ! 1) = last (scenario_d_days ! 0)"
proof -
  note h = split_days_scenario_d
  have "nld utc (end_time (last (scenario_d_days ! 0))) > 0 + int (Suc 0) * DAY"
       "hd (scenario_d_days ! 1) = last (scenario_d_days ! 0)"
    by (simp_all add: scenario_d_days_def nld_def utc_def DAY_def hours_def)
  with h split_days_carry_over [OF h] show ?thesis by blast
qed

text \<open>
  C2.  \<open>split_days\<close> raises \<open>ScheduleInconsistencyError\<close> (the specification's
  ScheduleConsistencyError) if and only if some rotation would close an empty day list,
  that is, the run without the check closes one; it raises nothing else (on runs within
  the range of datetimes: \<^verbatim>\<open>OverflowError\<close> is outside the model); and when it returns,
  every closed day list (every day list but the last) has at least one slot.
\<close>

theorem split_days_raises_iff_empty_day:
  "(split_days tz nlstart data = Inl ScheduleInconsistencyError \<longleftrightarrow>
      [] \<in> set (closed_days_unchecked tz nlstart data)) \<and>
   (\<forall>e. split_days tz nlstart data = Inl e \<longrightarrow> e = ScheduleInconsistencyError) \<and>
   (\<forall>days parts. split_days tz nlstart data = Inr (days, parts) \<longrightarrow>
      (\<forall>i. Suc i < length days \<longrightarrow> 1 \<le> length (days ! i)))"
proof (intro conjI allI impI iffI)
  let ?init = "\<lparr>sd_done_day_lists = [], sd_day_list = [], sd_partitions = {0},
           sd_day_start = nlstart, sd_day_end = nlstart + DAY\<rparr>"
  {
    assume "split_days tz nlstart data = Inl ScheduleInconsistencyError"
    then have "split_days_loop tz ?init data = Inl ScheduleInconsistencyError"
      by (simp add: split_days_def split: sum.splits)
    from split_days_loop_raises [OF this]
    show "[] \<in> set (closed_days_unchecked tz nlstart data)"
      by (simp add: closed_days_unchecked_def)
  }
  {
    fix e assume "split_days tz nlstart data = Inl e"
    then have "split_days_loop tz ?init data = Inl e"
      by (simp add: split_days_def split: sum.splits)
    from split_days_loop_raises [OF this] show "e = ScheduleInconsistencyError" by simp
  } note only = this
  {
    fix days parts i
    assume r: "split_days tz nlstart data = Inr (days, parts)" and i: "Suc i < length days"
    from split_days_decomposition [OF r] have ne: "[] \<notin> set (butlast days)" by blast
    have "butlast days ! i = days ! i" "i < length (butlast days)"
      using i by (simp_all add: nth_butlast)
    then have "days ! i \<noteq> []" using ne by (metis nth_mem)
    then show "1 \<le> length (days ! i)" by (simp add: Suc_le_eq)
  }
  {
    assume u: "[] \<in> set (closed_days_unchecked tz nlstart data)"
    show "split_days tz nlstart data = Inl ScheduleInconsistencyError"
    proof (cases "split_days tz nlstart data")
      case (Inl e)
      then show ?thesis using only by simp
    next
      case (Inr r)
      then obtain st where run: "split_days_loop tz ?init data = Inr st"
        and r: "r = (sd_done_day_lists st @ [sd_day_list st], sd_partitions st)"
        by (auto simp: split_days_def split: sum.splits)
      from split_days_loop_unchecked_agrees [OF run] u
      have "[] \<in> set (sd_done_day_lists st)" by (simp add: closed_days_unchecked_def)
      moreover from split_days_loop_inv [OF sd_inv_init run]
      have "[] \<notin> set (sd_done_day_lists st)" by (auto simp: sd_inv_def)
      ultimately show ?thesis by simp
    qed
  }
qed

theorem split_days_raises_iff_empty_day_witness:
  "split_days utc 0 scenario_d = Inr (scenario_d_days, {hours 1, hours 23, 0}) \<and>
   1 \<le> length (scenario_d_days ! 0) \<and>
   [] \<notin> set (closed_days_unchecked utc 0 scenario_d) \<and>
   split_days utc 0 late_start = Inl ScheduleInconsistencyError \<and>
   [] \<in> set (closed_days_unchecked utc 0 late_start)"
proof -
  note h = split_days_scenario_d
  have l: "split_days utc 0 late_start = Inl ScheduleInconsistencyError"
    by (simp add: split_days_def split_days_slot_def rotate_while.simps rotate_day_def nld_def
        DAY_def Let_def utc_def hours_def late_start_def)
  have "Suc 0 < length scenario_d_days" by (simp add: scenario_d_days_def)
  with h split_days_raises_iff_empty_day [of utc 0 scenario_d]
  have "1 \<le> length (scenario_d_days ! 0)" "[] \<notin> set (closed_days_unchecked utc 0 scenario_d)"
    by auto
  moreover from l split_days_raises_iff_empty_day [of utc 0 late_start]
  have "[] \<in> set (closed_days_unchecked utc 0 late_start)" by blast
  ultimately show ?thesis using h l by simp
qed

text \<open>
  C5.  When \<open>split_days\<close> returns, its row-offset set is the zero offset together with,
  for every input slot whose naive local start is strictly after the start
  \<open>nlstart + i * DAY\<close> of the day \<open>i\<close> it was appended on, the distance from that day's
  start to the slot's start; nothing else is in the set.  The lists \<open>segs\<close> are the slots
  appended on each day, in the order of the input.
\<close>

theorem split_days_row_offsets:
  assumes "split_days tz nlstart data = Inr (days, parts)"
  shows "\<exists>segs. concat segs = data \<and> days_match tz nlstart days segs \<and>
           parts = {0} \<union>
             {nld tz (start_time s) - (nlstart + int i * DAY) | i s.
                i < length segs \<and> s \<in> set (segs ! i) \<and>
                nlstart + int i * DAY < nld tz (start_time s)}"
  using split_days_decomposition [OF assms] unfolding day_offsets_def by auto

theorem split_days_row_offsets_witness:
  "split_days utc 0 scenario_d = Inr (scenario_d_days, {hours 1, hours 23, 0}) \<and>
   (\<exists>segs. concat segs = scenario_d \<and> days_match utc 0 scenario_d_days segs \<and>
           {hours 1, hours 23, 0} = {0} \<union>
             {nld utc (start_time s) - (0 + int i * DAY) | i s.
                i < length segs \<and> s \<in> set (segs ! i) \<and>
                0 + int i * DAY < nld utc (start_time s)})"
proof -
  note h = split_days_scenario_d
  with split_days_row_offsets [OF h] show ?thesis by blast
qed

text \<open>
  C9.  Every element of the row-offset set \<open>split_days\<close> returns lies in the half-open
  interval from zero to one day: zero is in the set, and every other offset is strictly
  positive and strictly less than \<open>DAY\<close>.
\<close>

theorem split_days_offsets_within_day:
  assumes "split_days tz nlstart data = Inr (days, parts)"
  shows "0 \<in> parts \<and> (\<forall>p\<in>parts. 0 \<le> p \<and> p < DAY) \<and> (\<forall>p\<in>parts. p \<noteq> 0 \<longrightarrow> 0 < p)"
proof -
  from split_days_decomposition [OF assms] have
    "0 \<in> parts" "\<forall>p\<in>parts. 0 \<le> p \<and> p < DAY" by auto
  then show ?thesis by fastforce
qed

theorem split_days_offsets_within_day_witness:
  "split_days utc 0 scenario_d = Inr (scenario_d_days, {hours 1, hours 23, 0}) \<and>
   0 \<in> {hours 1, hours 23, 0} \<and>
   0 < hours 23 \<and> hours 23 < DAY \<and> 0 < hours 1 \<and> hours 1 < DAY"
proof -
  note h = split_days_scenario_d
  from split_days_offsets_within_day [OF h]
  have "\<forall>p\<in>{hours 1, hours 23, 0}. 0 \<le> p \<and> p < DAY"
    and "\<forall>p\<in>{hours 1, hours 23, 0}. p \<noteq> 0 \<longrightarrow> 0 < p" by blast+
  moreover have "hours 1 \<noteq> 0" "hours 23 \<noteq> 0" by (simp_all add: hours_def)
  ultimately show ?thesis using h by simp
qed



text \<open>
  C10.  On the empty input list, for a schedule start \<open>nlstart\<close> that is a datetime and
  whose first day ends within the range of datetimes (so that \<^verbatim>\<open>day_start + DAY\<close> does
  not overflow), \<open>split_days\<close> returns normally: exactly one day list, which is empty,
  and the row-offset set that holds the zero offset alone.  The day that is open at the
  end is appended without the check \<open>rotate_day\<close> makes, so nothing is raised.
\<close>

theorem split_days_empty_input:
  assumes "datetime_min \<le> nlstart" and "nlstart + DAY \<le> datetime_max"
  shows "split_days tz nlstart [] = Inr ([[]], {0})"
  by (simp add: split_days_def)

theorem split_days_empty_input_witness:
  "datetime_min \<le> 0 \<and> 0 + DAY \<le> datetime_max \<and> split_days utc 0 [] = Inr ([[]], {0})"
proof -
  have 1: "datetime_min \<le> 0" by (simp add: datetime_min_def)
  have 2: "0 + DAY \<le> datetime_max" by (simp add: datetime_max_def DAY_def)
  from 1 2 split_days_empty_input [OF 1 2, of utc] show ?thesis by blast
qed


section \<open>Properties of the table builder\<close>

subsection \<open>The row cursor and the placing of one slot\<close>

lemma make_row_date_IndexError:
  "make_row_date t d r = Inl IndexError \<longleftrightarrow> \<not> (r < length t \<and> t ! r \<noteq> [])"
  by (auto simp: make_row_date_def SCHEDULE_TIME_COL_def Let_def split: cell.splits)

lemma count_rows_result:
  "count_rows t d e c = Inr (c', hb) \<Longrightarrow>
     c \<le> c' \<and>
     (\<forall>r. c \<le> r \<and> r < c' \<longrightarrow> (\<exists>x. make_row_date t d r = Inr x \<and> x < e)) \<and>
     (hb \<longrightarrow> make_row_date t d c' = Inl IndexError) \<and>
     (\<not> hb \<longrightarrow> (\<exists>x. make_row_date t d c' = Inr x \<and> e \<le> x))"
proof (induction t d e c rule: count_rows.induct)
  case (1 t d e c)
  show ?case
  proof (cases "make_row_date t d c")
    case (Inl err)
    with "1.prems" have "err = IndexError" "c' = c" "hb"
      by (auto simp: count_rows.simps [of t d e c] split: if_splits)
    with Inl show ?thesis by auto
  next
    case (Inr x)
    show ?thesis
    proof (cases "x < e")
      case False
      with "1.prems" Inr have "c' = c" "\<not> hb"
        by (auto simp: count_rows.simps [of t d e c])
      with Inr False show ?thesis by auto
    next
      case True
      with "1.prems" Inr have run: "count_rows t d e (c + 1) = Inr (c', hb)"
        by (simp add: count_rows.simps [of t d e c])
      from "1.IH" [OF Inr True run]
      have ih: "c + 1 \<le> c'"
        "\<forall>r. c + 1 \<le> r \<and> r < c' \<longrightarrow> (\<exists>x. make_row_date t d r = Inr x \<and> x < e)"
        "hb \<longrightarrow> make_row_date t d c' = Inl IndexError"
        "\<not> hb \<longrightarrow> (\<exists>x. make_row_date t d c' = Inr x \<and> e \<le> x)"
        by blast+
      have "\<exists>x. make_row_date t d r = Inr x \<and> x < e" if "c \<le> r" "r < c'" for r
      proof (cases "r = c")
        case True
        then show ?thesis using Inr \<open>x < e\<close> by simp
      next
        case False
        then show ?thesis using that ih(2) by simp
      qed
      then show ?thesis using ih by auto
    qed
  qed
qed

lemma populate_table_slot_result:
  assumes "populate_table_slot tz d (t, c) s = Inr (t', c')"
  shows "c \<le> c' \<and> c < length t \<and> SCHEDULE_DAY_OFFSET + d < length (t ! c) \<and>
         t' = t[c := (t ! c)[SCHEDULE_DAY_OFFSET + d := SlotCell s (c' - c)]] \<and>
         (\<forall>r. c \<le> r \<and> r < c' \<longrightarrow>
            (\<exists>x. make_row_date t d r = Inr x \<and> x < nld tz (end_time s))) \<and>
         (make_row_date t d c' = Inl IndexError \<or>
          make_row_date t d c' = Inr (nld tz (end_time s)))"
proof -
  let ?e = "nld tz (end_time s)"
  from assms obtain hb where cr: "count_rows t d ?e c = Inr (c', hb)"
    and chk: "\<not> hb \<longrightarrow> (\<exists>x. make_row_date t d c' = Inr x \<and> \<not> ?e < x)"
    and add: "make_add_to_table t d c s (c' - c) = Inr t'"
    by (auto simp: populate_table_slot_def Let_def split: sum.splits if_splits prod.splits)
  from count_rows_result [OF cr] have
    r1: "c \<le> c'"
    and r2: "\<forall>r. c \<le> r \<and> r < c' \<longrightarrow> (\<exists>x. make_row_date t d r = Inr x \<and> x < ?e)"
    and r3: "hb \<longrightarrow> make_row_date t d c' = Inl IndexError"
    and r4: "\<not> hb \<longrightarrow> (\<exists>x. make_row_date t d c' = Inr x \<and> ?e \<le> x)"
    by blast+
  have "make_row_date t d c' = Inl IndexError \<or> make_row_date t d c' = Inr ?e"
  proof (cases hb)
    case True
    then show ?thesis using r3 by simp
  next
    case False
    with chk r4 show ?thesis by fastforce
  qed
  moreover from add have "c < length t" "SCHEDULE_DAY_OFFSET + d < length (t ! c)"
    "t' = t[c := (t ! c)[SCHEDULE_DAY_OFFSET + d := SlotCell s (c' - c)]]"
    by (auto simp: make_add_to_table_def Let_def split: if_splits)
  ultimately show ?thesis using r1 r2 by blast
qed

lemma make_row_date_update:
  "0 < col \<Longrightarrow> make_row_date (t[c := (t ! c)[col := x]]) d r = make_row_date t d r"
  by (cases "r = c") (auto simp: make_row_date_def SCHEDULE_TIME_COL_def Let_def nth_list_update)

lemmas table_eval =
  empty_table_def populate_table_def populate_table_day_def populate_table_slot_def
  count_rows.simps make_row_date_def partitioning_unsound_def make_add_to_table_def
  nld_def utc_def hours_def DAY_def SCHEDULE_TIME_COL_def SCHEDULE_DAY_OFFSET_def Let_def

lemmas split_eval =
  split_days_def split_days_slot_def rotate_while.simps rotate_day_def

lemma partitioning_unsound_last_row:
  assumes "make_row_date t d c = Inr x" and "c + 1 = length t"
  shows "partitioning_unsound t d c False = IndexError"
  using assms by (simp add: partitioning_unsound_def make_row_date_def Let_def)

lemma populate_table_slot_stops_above:
  assumes "count_rows t d (nld tz (end_time s)) c = Inr (c', False)"
    and "make_row_date t d c' = Inr x" and "nld tz (end_time s) < x"
  shows "populate_table_slot tz d (t, c) s = Inl (partitioning_unsound t d c' False)"
  using assms by (simp add: populate_table_slot_def Let_def)

text \<open>
  A slot that starts where the slot before it ran past the last row: the write
  \<^verbatim>\<open>table[row][col] = slot, rows\<close> is out of range.
\<close>

lemma populate_table_day_past_last_row:
  "populate_table_day utc (empty_table 0 {0} 1) 0
     [\<lparr>start_time = 0, end_time = hours 30, show_type_name = ''show''\<rparr>,
      \<lparr>start_time = hours 30, end_time = hours 40, show_type_name = ''show''\<rparr>] =
   Inl IndexError"
  by (simp add: table_eval)

subsection \<open>The claims\<close>

text \<open>
  C3.  The cursor advances while the row's time plus the day offset is earlier than the
  slot's naive local end, and when it runs past the last row the check is skipped and
  the slot is written (lemmas \<open>count_rows_result\<close> and \<open>populate_table_slot_result\<close>;
  the write itself raises \<open>IndexError\<close> when the slot starts past the last row, lemma
  \<open>populate_table_day_past_last_row\<close>).  When the cursor stops inside the
  table at a row whose time is strictly greater than the slot's local end, the
  \<^verbatim>\<open>raise\<close> first evaluates \<^verbatim>\<open>row_date(current_row + 1)\<close> for its message, so at the last
  row of the table an \<open>IndexError\<close> leaves the function and not the
  \<open>ScheduleInconsistencyError\<close>: with rows at 00:00 and 12:00 and a slot that ends at
  06:00 the result is \<open>IndexError\<close>; with a further row at 18:00 it is
  \<open>ScheduleInconsistencyError\<close>; and \<open>tabulate\<close> on the schedule with the gap raises
  \<open>IndexError\<close>.
\<close>

theorem populate_table_day_raises_IndexError:
  "populate_table_day utc (empty_table 0 {0, hours 12} 1) 0 [short_slot] = Inl IndexError \<and>
   populate_table_day utc (empty_table 0 {0, hours 12, hours 18} 1) 0 [short_slot] =
     Inl ScheduleInconsistencyError \<and>
   tabulate utc \<lparr>sched_start = 0, sched_data = Inr [short_slot, noon_slot]\<rparr> = Inl IndexError"
  by (simp add: tabulate_def split_eval table_eval short_slot_def noon_slot_def)

subsection \<open>Spans in a column\<close>

lemma slot_frame:
  assumes "populate_table_slot tz d (t, c) s = Inr (t', c')"
  shows "length t' = length t" "length (t' ! r) = length (t ! r)"
    "j \<noteq> SCHEDULE_DAY_OFFSET + d \<Longrightarrow> t' ! r ! j = t ! r ! j"
    "r \<noteq> c \<Longrightarrow> t' ! r = t ! r"
    "t' ! c ! (SCHEDULE_DAY_OFFSET + d) = SlotCell s (c' - c)"
    "make_row_date t' d' r = make_row_date t d' r"
proof -
  from populate_table_slot_result [OF assms] have
    c: "c < length t" and col: "SCHEDULE_DAY_OFFSET + d < length (t ! c)"
    and t': "t' = t[c := (t ! c)[SCHEDULE_DAY_OFFSET + d := SlotCell s (c' - c)]]"
    by blast+
  show "length t' = length t" by (simp add: t')
  show "length (t' ! r) = length (t ! r)"
    using c by (cases "r = c") (simp_all add: t')
  show "t' ! r ! j = t ! r ! j" if "j \<noteq> SCHEDULE_DAY_OFFSET + d"
    using c that by (cases "r = c") (simp_all add: t')
  show "t' ! r = t ! r" if "r \<noteq> c" using that by (simp add: t')
  show "t' ! c ! (SCHEDULE_DAY_OFFSET + d) = SlotCell s (c' - c)"
    using c col by (simp add: t')
  show "make_row_date t' d' r = make_row_date t d' r"
    unfolding t' by (rule make_row_date_update) (simp add: SCHEDULE_DAY_OFFSET_def)
qed

lemma count_rows_bound:
  assumes "count_rows t d e c = Inr (c', hb)" and "c \<le> length t"
  shows "c' \<le> length t"
proof (cases "c' = c")
  case True
  then show ?thesis using assms(2) by simp
next
  case False
  from count_rows_result [OF assms(1)] have "c \<le> c'"
    and r: "\<forall>r. c \<le> r \<and> r < c' \<longrightarrow> (\<exists>x. make_row_date t d r = Inr x \<and> x < e)" by blast+
  with False have "c \<le> c' - 1" "c' - 1 < c'" by simp_all
  with r obtain x where "make_row_date t d (c' - 1) = Inr x" by blast
  then have "c' - 1 < length t"
    by (auto simp: make_row_date_def Let_def split: if_splits)
  then show ?thesis by simp
qed

lemma slot_bound:
  assumes "populate_table_slot tz d (t, c) s = Inr (t', c')"
  shows "c' \<le> length t"
proof -
  from assms obtain hb where "count_rows t d (nld tz (end_time s)) c = Inr (c', hb)"
    by (auto simp: populate_table_slot_def Let_def split: sum.splits if_splits prod.splits)
  moreover from populate_table_slot_result [OF assms] have "c \<le> length t" by simp
  ultimately show ?thesis by (rule count_rows_bound)
qed

lemma day_loop_frame:
  "populate_table_day_loop tz d (t, c) day = Inr (t', c') \<Longrightarrow>
     length t' = length t \<and> (\<forall>r. length (t' ! r) = length (t ! r)) \<and>
     (\<forall>r j. j \<noteq> SCHEDULE_DAY_OFFSET + d \<longrightarrow> t' ! r ! j = t ! r ! j) \<and>
     (\<forall>r<c. t' ! r = t ! r) \<and> c \<le> c' \<and>
     (\<forall>d' r. make_row_date t' d' r = make_row_date t d' r)"
proof (induction day arbitrary: t c)
  case Nil
  then show ?case by simp
next
  case (Cons s day)
  from Cons.prems obtain t1 c1 where
    step: "populate_table_slot tz d (t, c) s = Inr (t1, c1)"
    and rest: "populate_table_day_loop tz d (t1, c1) day = Inr (t', c')"
    by (auto split: sum.splits)
  note f = slot_frame [OF step]
  from populate_table_slot_result [OF step] have cc: "c \<le> c1" by simp
  from Cons.IH [OF rest] have ih:
    "length t' = length t1" "\<forall>r. length (t' ! r) = length (t1 ! r)"
    "\<forall>r j. j \<noteq> SCHEDULE_DAY_OFFSET + d \<longrightarrow> t' ! r ! j = t1 ! r ! j"
    "\<forall>r<c1. t' ! r = t1 ! r" "c1 \<le> c'"
    "\<forall>d' r. make_row_date t' d' r = make_row_date t1 d' r"
    by blast+
  show ?case
  proof (intro conjI allI impI)
    show "length t' = length t" using ih(1) f(1) by simp
    show "length (t' ! r) = length (t ! r)" for r using ih(2) f(2) by simp
    show "t' ! r ! j = t ! r ! j" if "j \<noteq> SCHEDULE_DAY_OFFSET + d" for r j
      using ih(3) f(3) that by simp
    show "t' ! r = t ! r" if "r < c" for r
    proof -
      have "r < c1" "r \<noteq> c" using that cc by simp_all
      then show ?thesis using ih(4) f(4) by simp
    qed
    show "c \<le> c'" using cc ih(5) by simp
    show "make_row_date t' d' r = make_row_date t d' r" for d' r
      using ih(6) f(6) by simp
  qed
qed

lemma spans_ok_step:
  assumes ok: "spans_ok (SCHEDULE_DAY_OFFSET + d) S c t"
    and step: "populate_table_slot tz d (t, c) s = Inr (t', c')"
  shows "spans_ok (SCHEDULE_DAY_OFFSET + d) (insert s S) c' t'"
proof -
  let ?col = "SCHEDULE_DAY_OFFSET + d"
  note f = slot_frame [OF step]
  from populate_table_slot_result [OF step] have cc: "c \<le> c'" and cl: "c < length t" by simp_all
  have b: "c' \<le> length t" using step by (rule slot_bound)
  have none: "t ! r ! ?col = NoneCell" if "c < r" "r < length t" for r
    using ok that by (simp add: spans_ok_def)
  have old: "s' \<in> S \<and> r + k \<le> c \<and> (\<forall>j. 0 < j \<and> j < k \<longrightarrow> t ! (r + j) ! ?col = NoneCell)"
    if "r < length t" "t ! r ! ?col = SlotCell s' k" for r s' k
    using ok that by (simp add: spans_ok_def)
  have "(c' < r \<longrightarrow> t' ! r ! ?col = NoneCell) \<and>
        (\<forall>s' k. t' ! r ! ?col = SlotCell s' k \<longrightarrow>
            s' \<in> insert s S \<and> r + k \<le> c' \<and>
            (\<forall>j. 0 < j \<and> j < k \<longrightarrow> t' ! (r + j) ! ?col = NoneCell))"
    if r: "r < length t" for r
  proof (cases "r = c")
    case True
    have "t' ! (c + j) ! ?col = NoneCell" if "0 < j" "j < c' - c" for j
    proof -
      have "c + j \<noteq> c" "c < c + j" "c + j < length t" using that b by simp_all
      then show ?thesis using f(4) [of "c + j"] none by simp
    qed
    then show ?thesis using True f(5) cc by auto
  next
    case False
    then have same: "t' ! r = t ! r" by (rule f(4))
    have "t' ! (r + j) ! ?col = NoneCell"
      if "t ! r ! ?col = SlotCell s' k" "0 < j" "j < k" for s' k j
    proof -
      from old [OF r that(1)] have "r + k \<le> c" "t ! (r + j) ! ?col = NoneCell"
        using that by simp_all
      moreover have "r + j \<noteq> c" using \<open>r + k \<le> c\<close> that by simp
      ultimately show ?thesis using f(4) [of "r + j"] by simp
    qed
    moreover have "s' \<in> insert s S \<and> r + k \<le> c'" if "t ! r ! ?col = SlotCell s' k" for s' k
      using old [OF r that] cc by simp
    moreover have "t ! r ! ?col = NoneCell" if "c' < r" using none r that cc by simp
    ultimately show ?thesis using same by auto
  qed
  then show ?thesis using b f(1) unfolding spans_ok_def by simp
qed

lemma spans_ok_loop:
  "spans_ok (SCHEDULE_DAY_OFFSET + d) S c t \<Longrightarrow>
   populate_table_day_loop tz d (t, c) day = Inr (t', c') \<Longrightarrow>
   spans_ok (SCHEDULE_DAY_OFFSET + d) (S \<union> set day) c' t'"
proof (induction day arbitrary: t c S)
  case Nil
  then show ?case by simp
next
  case (Cons s day)
  from Cons.prems(2) obtain t1 c1 where
    step: "populate_table_slot tz d (t, c) s = Inr (t1, c1)"
    and rest: "populate_table_day_loop tz d (t1, c1) day = Inr (t', c')"
    by (auto split: sum.splits)
  from Cons.IH [OF spans_ok_step [OF Cons.prems(1) step] rest]
  show ?case by simp
qed

lemma spans_ok_fine: "spans_ok col S c t \<Longrightarrow> spans_fine col S t"
  unfolding spans_ok_def spans_fine_def by fastforce

lemma spans_fine_transfer:
  assumes "spans_fine col S t" "length t' = length t" "\<forall>r. t' ! r ! col = t ! r ! col"
  shows "spans_fine col S t'"
  using assms unfolding spans_fine_def by simp

lemma laid_out_transfer:
  assumes "length t' = length t"
    and "\<forall>r. t' ! r ! (SCHEDULE_DAY_OFFSET + d) = t ! r ! (SCHEDULE_DAY_OFFSET + d)"
    and "\<forall>r. make_row_date t' d r = make_row_date t d r"
  shows "laid_out tz t d c day \<Longrightarrow> laid_out tz t' d c day"
  using assms by (induction day arbitrary: c) auto

lemma laid_out_loop:
  assumes "populate_table_day_loop tz d (t, c) day = Inr (t', c')"
    and "\<forall>r<length t. t ! r \<noteq> []"
    and "sorted_wrt (<) (map (\<lambda>s. nld tz (end_time s)) day)"
    and "\<forall>s\<in>set day. \<forall>x. make_row_date t d c = Inr x \<longrightarrow> x < nld tz (end_time s)"
  shows "laid_out tz t' d c day"
  using assms
proof (induction day arbitrary: t c)
  case Nil
  then show ?case by simp
next
  case (Cons s day)
  let ?e = "nld tz (end_time s)"
  let ?col = "SCHEDULE_DAY_OFFSET + d"
  from Cons.prems(1) obtain t1 c1 where
    step: "populate_table_slot tz d (t, c) s = Inr (t1, c1)"
    and rest: "populate_table_day_loop tz d (t1, c1) day = Inr (t', c')"
    by (auto split: sum.splits)
  note f = slot_frame [OF step]
  note g = day_loop_frame [OF rest]
  from populate_table_slot_result [OF step] have
    cc: "c \<le> c1" and cl: "c < length t" and col: "?col < length (t ! c)"
    and before: "\<forall>r. c \<le> r \<and> r < c1 \<longrightarrow> (\<exists>x. make_row_date t d r = Inr x \<and> x < ?e)"
    and stop: "make_row_date t d c1 = Inl IndexError \<or> make_row_date t d c1 = Inr ?e"
    by blast+
  have b: "c1 \<le> length t" using step by (rule slot_bound)
  from step obtain hb where cr: "count_rows t d ?e c = Inr (c1, hb)"
    by (auto simp: populate_table_slot_def Let_def split: sum.splits if_splits prod.splits)
  have ne: "t ! c \<noteq> []" using cl Cons.prems(2) by simp
  have adv: "c < c1"
  proof (rule ccontr)
    assume "\<not> c < c1"
    then have e: "c1 = c" using cc by simp
    from count_rows_result [OF cr] have
      "hb \<longrightarrow> make_row_date t d c = Inl IndexError"
      "\<not> hb \<longrightarrow> (\<exists>x. make_row_date t d c = Inr x \<and> ?e \<le> x)"
      unfolding e by blast+
    moreover have "make_row_date t d c \<noteq> Inl IndexError"
      using cl ne by (simp add: make_row_date_IndexError)
    ultimately obtain x where "make_row_date t d c = Inr x" "?e \<le> x" by blast
    with Cons.prems(4) show False by fastforce
  qed
  have stop': "c1 = length t \<or> make_row_date t d c1 = Inr ?e"
  proof (cases "c1 < length t")
    case True
    then have "make_row_date t d c1 \<noteq> Inl IndexError"
      using Cons.prems(2) by (simp add: make_row_date_IndexError)
    then show ?thesis using stop by simp
  next
    case False
    then show ?thesis using b by simp
  qed
  have rows1: "\<forall>r<length t1. t1 ! r \<noteq> []"
    using Cons.prems(2) f(1) f(2) by (metis length_0_conv)
  have sorted1: "sorted_wrt (<) (map (\<lambda>s. nld tz (end_time s)) day)"
    using Cons.prems(3) by simp
  have cur1: "\<forall>s'\<in>set day. \<forall>x. make_row_date t1 d c1 = Inr x \<longrightarrow> x < nld tz (end_time s')"
  proof (intro ballI allI impI)
    fix s' x assume s': "s' \<in> set day" and x: "make_row_date t1 d c1 = Inr x"
    then have "make_row_date t d c1 = Inr x" using f(6) by simp
    with stop have "x = ?e" by simp
    moreover have "?e < nld tz (end_time s')" using Cons.prems(3) s' by simp
    ultimately show "x < nld tz (end_time s')" by simp
  qed
  have ih: "laid_out tz t' d c1 day"
    using Cons.IH [OF rest rows1 sorted1 cur1] .
  have mrd: "make_row_date t' d r = make_row_date t d r" for r
    using g f(6) by simp
  have len: "length t' = length t" using g f(1) by simp
  have cell: "t' ! c ! ?col = SlotCell s (c1 - c)"
  proof -
    have "t' ! c = t1 ! c" using g adv by simp
    then show ?thesis using f(5) by simp
  qed
  have "c + (c1 - c) = c1" using cc by simp
  then show ?case
    using cell adv cl len mrd before stop' ih
    by (auto intro!: exI [of _ "c1 - c"])
qed

lemma day_frame:
  assumes "populate_table_day tz t d day = Inr t'"
  shows "length t' = length t" "length (t' ! r) = length (t ! r)"
    "j \<noteq> SCHEDULE_DAY_OFFSET + d \<Longrightarrow> t' ! r ! j = t ! r ! j"
    "make_row_date t' d' r = make_row_date t d' r"
proof -
  from assms obtain c' where "populate_table_day_loop tz d (t, 0) day = Inr (t', c')"
    by (auto simp: populate_table_day_def split: sum.splits)
  note g = day_loop_frame [OF this]
  show "length t' = length t" "length (t' ! r) = length (t ! r)"
    "make_row_date t' d' r = make_row_date t d' r"
    using g by simp_all
  show "t' ! r ! j = t ! r ! j" if "j \<noteq> SCHEDULE_DAY_OFFSET + d" using g that by simp
qed

lemma from_frame:
  "populate_table_from tz t i days = Inr t' \<Longrightarrow>
     length t' = length t \<and> (\<forall>r. length (t' ! r) = length (t ! r)) \<and>
     (\<forall>r j. j < SCHEDULE_DAY_OFFSET + i \<longrightarrow> t' ! r ! j = t ! r ! j) \<and>
     (\<forall>d r. make_row_date t' d r = make_row_date t d r)"
proof (induction days arbitrary: t i)
  case Nil
  then show ?case by simp
next
  case (Cons day days)
  from Cons.prems obtain t1 where
    d: "populate_table_day tz t i day = Inr t1"
    and rest: "populate_table_from tz t1 (i + 1) days = Inr t'"
    by (auto split: sum.splits)
  note f = day_frame [OF d]
  from Cons.IH [OF rest] have ih:
    "length t' = length t1" "\<forall>r. length (t' ! r) = length (t1 ! r)"
    "\<forall>r j. j < SCHEDULE_DAY_OFFSET + (i + 1) \<longrightarrow> t' ! r ! j = t1 ! r ! j"
    "\<forall>d r. make_row_date t' d r = make_row_date t1 d r"
    by blast+
  show ?case
  proof (intro conjI allI impI)
    show "length t' = length t" using ih(1) f(1) by simp
    show "length (t' ! r) = length (t ! r)" for r using ih(2) f(2) by simp
    show "t' ! r ! j = t ! r ! j" if "j < SCHEDULE_DAY_OFFSET + i" for r j
    proof -
      have "j < SCHEDULE_DAY_OFFSET + (i + 1)" "j \<noteq> SCHEDULE_DAY_OFFSET + i" using that by simp_all
      then show ?thesis using ih(3) f(3) by simp
    qed
    show "make_row_date t' d r = make_row_date t d r" for d r using ih(4) f(4) by simp
  qed
qed

lemma populate_table_from_days:
  assumes "populate_table_from tz t i days = Inr t'" and "\<forall>r<length t. t ! r \<noteq> []"
    and "k < length days"
    and "\<forall>r<length t. t ! r ! (SCHEDULE_DAY_OFFSET + (i + k)) = NoneCell"
  shows "spans_fine (SCHEDULE_DAY_OFFSET + (i + k)) (set (days ! k)) t' \<and>
         (sorted_wrt (<) (map (\<lambda>s. nld tz (end_time s)) (days ! k)) \<and>
          (\<forall>s\<in>set (days ! k). \<forall>x. make_row_date t (i + k) 0 = Inr x \<longrightarrow> x < nld tz (end_time s))
          \<longrightarrow> laid_out tz t' (i + k) 0 (days ! k))"
  using assms
proof (induction days arbitrary: t i k)
  case Nil
  then show ?case by simp
next
  case (Cons day days)
  from Cons.prems(1) obtain t1 where
    d: "populate_table_day tz t i day = Inr t1"
    and rest: "populate_table_from tz t1 (i + 1) days = Inr t'"
    by (auto split: sum.splits)
  note f = day_frame [OF d]
  note g = from_frame [OF rest]
  show ?case
  proof (cases k)
    case 0
    let ?col = "SCHEDULE_DAY_OFFSET + i"
    from d obtain c' where loop: "populate_table_day_loop tz i (t, 0) day = Inr (t1, c')"
      by (auto simp: populate_table_day_def split: sum.splits)
    have "spans_ok ?col {} 0 t" using Cons.prems(4) 0 by (simp add: spans_ok_def)
    from spans_ok_loop [OF this loop] have "spans_fine ?col (set day) t1"
      by (simp add: spans_ok_fine)
    moreover have len: "length t' = length t1" using g by simp
    moreover have same: "\<forall>r. t' ! r ! ?col = t1 ! r ! ?col" using g by simp
    ultimately have 1: "spans_fine ?col (set day) t'" by (rule spans_fine_transfer)
    have 2: "laid_out tz t' i 0 day"
      if "sorted_wrt (<) (map (\<lambda>s. nld tz (end_time s)) day)"
        "\<forall>s\<in>set day. \<forall>x. make_row_date t i 0 = Inr x \<longrightarrow> x < nld tz (end_time s)"
    proof -
      have "laid_out tz t1 i 0 day" using loop Cons.prems(2) that by (rule laid_out_loop)
      moreover have "\<forall>r. make_row_date t' i r = make_row_date t1 i r" using g by simp
      ultimately show ?thesis using len same laid_out_transfer by blast
    qed
    show ?thesis using 0 1 2 by simp
  next
    case (Suc k')
    have rows1: "\<forall>r<length t1. t1 ! r \<noteq> []"
      using Cons.prems(2) f(1) f(2) by (metis length_0_conv)
    have k': "k' < length days" using Cons.prems(3) Suc by simp
    have none1: "\<forall>r<length t1. t1 ! r ! (SCHEDULE_DAY_OFFSET + (i + 1 + k')) = NoneCell"
      using Cons.prems(4) Suc f(1) f(3) by simp
    from Cons.IH [OF rest rows1 k' none1]
    show ?thesis using Suc f(4) by simp
  qed
qed

lemma empty_table_rows:
  "r < length (empty_table nlstart partitions n_cols) \<Longrightarrow>
     empty_table nlstart partitions n_cols ! r \<noteq> [] \<and>
     (d < n_cols \<longrightarrow> empty_table nlstart partitions n_cols ! r ! (SCHEDULE_DAY_OFFSET + d) = NoneCell)"
  by (simp add: empty_table_def SCHEDULE_DAY_OFFSET_def)

lemma populate_scenario_d:
  "populate_table utc (empty_table 0 {hours 1, hours 23, 0} 2) scenario_d_days = Inr scenario_d_table"
  by (simp add: table_eval scenario_d_days_def scenario_d_table_def numeral_2_eq_2)

text \<open>
  C4, as stated, fails: a slot of strictly positive local duration whose local end is
  not after the time of the row where the cursor stands gets the span 0, and the next
  slot of the day is written over it.  Here the first slot runs from 23:00 of the day
  before to 00:00, the start of the schedule: \<open>populate_table\<close> succeeds, and the slot is
  in no cell of the table.  \<open>tabulate\<close> builds the same table from the two slots.
\<close>

theorem populate_table_overwrites_slot:
  "populate_table utc (empty_table 0 {0} 1) [[early_slot, first_hour]] =
     Inr [[DateCell 0, SlotCell first_hour 1]] \<and>
   nld utc (start_time early_slot) < nld utc (end_time early_slot) \<and>
   nld utc (start_time first_hour) < nld utc (end_time first_hour) \<and>
   (\<nexists>k. SlotCell early_slot k \<in> set (concat [[DateCell 0, SlotCell first_hour 1]])) \<and>
   tabulate utc \<lparr>sched_start = 0, sched_data = Inr [early_slot, first_hour]\<rparr> =
     Inr (Inr [[DateCell 0, SlotCell first_hour 1]])"
  by (simp add: tabulate_def split_eval table_eval early_slot_def first_hour_def)

text \<open>
  C4, amended.  After \<open>populate_table\<close> succeeds on an \<open>empty_table\<close> grid, in the column
  \<open>SCHEDULE_DAY_OFFSET + d\<close> of every day \<open>d\<close>: every populated cell \<open>(s, k)\<close> holds a slot of
  the day's list, its \<open>k\<close> rows lie within the table, the \<open>k - 1\<close> rows after it hold \<^verbatim>\<open>None\<close>,
  and every populated cell below it starts at or after the end of its span (no two spans
  overlap).  If moreover the local ends of the day's slots are strictly increasing and
  all strictly after the time of the table's first row for that day, then every slot of
  the day stands in the column as \<open>(slot, span)\<close> with a span of at least one, the first at
  row 0 and each next one at the row where the span before it ends.
\<close>

theorem populate_table_spans:
  assumes "populate_table tz (empty_table nlstart partitions n_cols) data_lists = Inr table"
    and "d < length data_lists" and "d < n_cols"
  shows "(\<forall>r s k. r < length table \<and> table ! r ! (SCHEDULE_DAY_OFFSET + d) = SlotCell s k \<longrightarrow>
            s \<in> set (data_lists ! d) \<and> r + k \<le> length table \<and>
            (\<forall>j. 0 < j \<and> j < k \<longrightarrow> table ! (r + j) ! (SCHEDULE_DAY_OFFSET + d) = NoneCell) \<and>
            (\<forall>r' s' k'. r < r' \<and> r' < length table \<and>
               table ! r' ! (SCHEDULE_DAY_OFFSET + d) = SlotCell s' k' \<longrightarrow> r + k \<le> r')) \<and>
         (sorted_wrt (<) (map (\<lambda>s. nld tz (end_time s)) (data_lists ! d)) \<and>
          (\<forall>s\<in>set (data_lists ! d). \<forall>x.
             make_row_date (empty_table nlstart partitions n_cols) d 0 = Inr x \<longrightarrow>
             x < nld tz (end_time s))
          \<longrightarrow> laid_out tz table d 0 (data_lists ! d))"
proof -
  let ?t = "empty_table nlstart partitions n_cols"
  let ?col = "SCHEDULE_DAY_OFFSET + d"
  have run: "populate_table_from tz ?t 0 data_lists = Inr table"
    using assms(1) by (simp add: populate_table_def)
  have rows: "\<forall>r<length ?t. ?t ! r \<noteq> []" using empty_table_rows by blast
  have none: "\<forall>r<length ?t. ?t ! r ! (SCHEDULE_DAY_OFFSET + (0 + d)) = NoneCell"
    using empty_table_rows assms(3) by simp
  from populate_table_from_days [OF run rows assms(2) none]
  have fine: "spans_fine ?col (set (data_lists ! d)) table"
    and lay: "sorted_wrt (<) (map (\<lambda>s. nld tz (end_time s)) (data_lists ! d)) \<and>
          (\<forall>s\<in>set (data_lists ! d). \<forall>x. make_row_date ?t d 0 = Inr x \<longrightarrow> x < nld tz (end_time s))
          \<longrightarrow> laid_out tz table d 0 (data_lists ! d)"
    by simp_all
  have span: "s \<in> set (data_lists ! d) \<and> r + k \<le> length table \<and>
            (\<forall>j. 0 < j \<and> j < k \<longrightarrow> table ! (r + j) ! ?col = NoneCell)"
    if "r < length table" "table ! r ! ?col = SlotCell s k" for r s k
    using fine that unfolding spans_fine_def by blast
  have "r + k \<le> r'"
    if "r < length table" "table ! r ! ?col = SlotCell s k" "r < r'"
      "table ! r' ! ?col = SlotCell s' k'" for r s k r' s' k'
  proof (rule ccontr)
    assume "\<not> r + k \<le> r'"
    then have "0 < r' - r" "r' - r < k" using that(3) by simp_all
    with span [OF that(1,2)] have "table ! (r + (r' - r)) ! ?col = NoneCell" by blast
    then show False using that(3,4) by simp
  qed
  with span lay show ?thesis by blast
qed

theorem populate_table_spans_witness:
  "populate_table utc (empty_table 0 {hours 1, hours 23, 0} 2) scenario_d_days = Inr scenario_d_table \<and>
   sorted_wrt (<) (map (\<lambda>s. nld utc (end_time s)) (scenario_d_days ! 1)) \<and>
   make_row_date (empty_table 0 {hours 1, hours 23, 0} 2) 1 0 = Inr DAY \<and>
   laid_out utc scenario_d_table 1 0 (scenario_d_days ! 1) \<and>
   scenario_d_table ! 1 ! (SCHEDULE_DAY_OFFSET + 1) =
     SlotCell \<lparr>start_time = hours 25, end_time = hours 48, show_type_name = ''filler''\<rparr> 2 \<and>
   scenario_d_table ! 2 ! (SCHEDULE_DAY_OFFSET + 1) = NoneCell"
proof -
  note run = populate_scenario_d
  have d: "(1::nat) < length scenario_d_days" "(1::nat) < 2"
    by (simp_all add: scenario_d_days_def)
  have s: "sorted_wrt (<) (map (\<lambda>s. nld utc (end_time s)) (scenario_d_days ! 1))"
    by (simp add: scenario_d_days_def nld_def utc_def hours_def)
  have m: "make_row_date (empty_table 0 {hours 1, hours 23, 0} 2) 1 0 = Inr DAY"
    by (simp add: table_eval)
  have b: "\<forall>s\<in>set (scenario_d_days ! 1). \<forall>x.
             make_row_date (empty_table 0 {hours 1, hours 23, 0} 2) 1 0 = Inr x \<longrightarrow>
             x < nld utc (end_time s)"
    unfolding m by (simp add: scenario_d_days_def nld_def utc_def hours_def DAY_def)
  have cell: "scenario_d_table ! 1 ! (SCHEDULE_DAY_OFFSET + 1) =
     SlotCell \<lparr>start_time = hours 25, end_time = hours 48, show_type_name = ''filler''\<rparr> 2"
    by (simp add: scenario_d_table_def SCHEDULE_DAY_OFFSET_def)
  have l: "(1::nat) < length scenario_d_table" by (simp add: scenario_d_table_def)
  from populate_table_spans [OF run d] s b
  have lay: "laid_out utc scenario_d_table 1 0 (scenario_d_days ! 1)" by blast
  from populate_table_spans [OF run d] l cell
  have "\<forall>j. 0 < j \<and> j < 2 \<longrightarrow> scenario_d_table ! (1 + j) ! (SCHEDULE_DAY_OFFSET + 1) = NoneCell"
    by blast
  then have "scenario_d_table ! (1 + 1) ! (SCHEDULE_DAY_OFFSET + 1) = NoneCell" by simp
  moreover have "(1::nat) + 1 = 2" by simp
  ultimately have "scenario_d_table ! 2 ! (SCHEDULE_DAY_OFFSET + 1) = NoneCell" by metis
  with run s m lay cell show ?thesis by simp
qed

section \<open>Properties of the orchestration\<close>




section \<open>Properties of the local-time normalizer\<close>




section \<open>Properties of the gap filler\<close>

lemma fill_between_Nil [simp]: "fill_between ts = [] \<longleftrightarrow> ts = []"
  by (induction ts rule: fill_between.induct) auto

lemma fill_between_hd: "ts \<noteq> [] \<Longrightarrow> hd (fill_between ts) = hd ts"
  by (induction ts rule: fill_between.induct) auto

lemma fill_between_last: "ts \<noteq> [] \<Longrightarrow> last (fill_between ts) = last ts"
  by (induction ts rule: fill_between.induct) auto

lemma fill_between_contiguous:
  "successively (\<lambda>p q. range_end p \<le> range_start q) ts \<Longrightarrow>
   successively (\<lambda>p q. range_end p = range_start q) (fill_between ts)"
proof (induction ts rule: fill_between.induct)
  case (3 slot next_slot timeslots)
  then have ih: "successively (\<lambda>p q. range_end p = range_start q) (fill_between (next_slot # timeslots))"
    and le: "range_end slot \<le> range_start next_slot"
    by simp_all
  have h: "hd (fill_between (next_slot # timeslots)) = next_slot"
    by (simp add: fill_between_hd)
  have ne: "fill_between (next_slot # timeslots) \<noteq> []" by simp
  show ?case
  proof (cases "range_end slot < range_start next_slot")
    case True
    then show ?thesis using ih h ne
      by (simp add: successively_Cons filler_slot_def range_start_def range_end_def
          )
  next
    case False
    with le have "range_end slot = range_start next_slot" by simp
    then show ?thesis using ih h ne False
      by (simp add: successively_Cons)
  qed
qed simp_all

text \<open>
  C8.  For an input list in which no slot ends after the next one starts, and a range
  with \<open>start\<close> not after \<open>end\<close>, \<open>fill\<close> returns a list in which every slot ends where the
  next one starts; the list is not empty, starts no later than \<open>start\<close> and ends no
  earlier than \<open>end\<close>.
\<close>

theorem fill_contiguous:
  assumes "successively (\<lambda>p q. range_end p \<le> range_start q) timeslots"
    and "start_time' \<le> end_time'"
  shows "\<exists>filled. fill timeslots start_time' end_time' = Inr filled \<and>
           successively (\<lambda>p q. range_end p = range_start q) filled \<and>
           filled \<noteq> [] \<and> range_start (hd filled) \<le> start_time' \<and>
           end_time' \<le> range_end (last filled)"
proof (cases "timeslots = []")
  case True
  then show ?thesis using assms(2)
    by (simp add: fill_def filler_slot_def range_start_def range_end_def)
next
  case False
  let ?pre = "if start_time' < range_start (hd timeslots)
          then [filler_slot start_time' (range_start (hd timeslots))] else []"
  let ?post = "if range_end (last timeslots) < end_time'
          then [filler_slot (range_end (last timeslots)) end_time'] else []"
  let ?mid = "fill_between timeslots"
  have f: "fill timeslots start_time' end_time' = Inr (?pre @ ?mid @ ?post)"
    using False assms(2) by (simp add: fill_def)
  have mid: "successively (\<lambda>p q. range_end p = range_start q) ?mid"
    using assms(1) by (rule fill_between_contiguous)
  have ne: "?mid \<noteq> []" using False by simp
  have h: "hd ?mid = hd timeslots" and l: "last ?mid = last timeslots"
    using False by (simp_all add: fill_between_hd fill_between_last)
  have "successively (\<lambda>p q. range_end p = range_start q) (?pre @ ?mid @ ?post)"
    using mid ne h l
    by (auto simp: successively_append_iff filler_slot_def range_start_def range_end_def)
  moreover have "range_start (hd (?pre @ ?mid @ ?post)) \<le> start_time'"
    using ne h by (auto simp: filler_slot_def range_start_def)
  moreover have "end_time' \<le> range_end (last (?pre @ ?mid @ ?post))"
    using ne l by (auto simp: filler_slot_def range_end_def)
  ultimately show ?thesis using f ne by auto
qed

theorem fill_contiguous_witness:
  "successively (\<lambda>p q. range_end p \<le> range_start q) [show_a] \<and> hours 8 \<le> hours 11 \<and>
   fill [show_a] (hours 8) (hours 11) =
     Inr [filler_slot (hours 8) (hours 9), show_a, filler_slot (hours 10) (hours 11)] \<and>
   (\<exists>filled. fill [show_a] (hours 8) (hours 11) = Inr filled \<and>
           successively (\<lambda>p q. range_end p = range_start q) filled \<and>
           filled \<noteq> [] \<and> range_start (hd filled) \<le> hours 8 \<and>
           hours 11 \<le> range_end (last filled))"
proof -
  have 1: "successively (\<lambda>p q. range_end p \<le> range_start q) [show_a]" by simp
  have 2: "hours 8 \<le> hours 11" by (simp add: hours_def)
  have "fill [show_a] (hours 8) (hours 11) =
     Inr [filler_slot (hours 8) (hours 9), show_a, filler_slot (hours 10) (hours 11)]"
    by (simp add: fill_def show_a_def range_start_def range_end_def hours_def)
  with 1 2 fill_contiguous [OF 1 2] show ?thesis by blast
qed

end
